theory Spec2Isabelle
  imports Complex_Main "HOL-Library.Log_Nat"
begin

section \<open>Python numbers\<close>

text \<open>
  \<^verbatim>\<open>generate_images.py\<close> computes with Python \<^verbatim>\<open>int\<close> (unbounded, modelled by
  \<^typ>\<open>int\<close>) and Python \<^verbatim>\<open>float\<close> (IEEE 754 binary64).  A finite double is modelled
  by the rational number it denotes, and every float operation returns the correctly
  rounded exact result: round to nearest, ties to even, 53 significant bits.  The
  exponent range is not modelled (no overflow to infinity, no subnormal numbers); the
  script's values stay far inside it for every canvas size Pillow can allocate.
\<close>

definition round_half_even :: "rat \<Rightarrow> int" where
  "round_half_even x =
     (let f = \<lfloor>x\<rfloor>; d = x - of_int f
      in if d < 1/2 then f else if 1/2 < d then f + 1 else if even f then f else f + 1)"

text \<open>The exponent \<open>e\<close> with \<open>2^e \<le> x < 2^(e+1)\<close>, for positive \<open>x\<close>.\<close>

definition binade :: "rat \<Rightarrow> int" where
  "binade x =
     (let (p, q) = quotient_of x; e = bitlen p - bitlen q
      in if 2 powi e \<le> x then e else e - 1)"

text \<open>Rounding of an exact value to the nearest double.\<close>

definition fl :: "rat \<Rightarrow> rat" where
  "fl x =
     (if x = 0 then 0
      else let s = 2 powi (binade \<bar>x\<bar> - 52)
           in sgn x * of_int (round_half_even (\<bar>x\<bar> / s)) * s)"

definition is_double :: "rat \<Rightarrow> bool" where
  "is_double x \<longleftrightarrow> fl x = x"

text \<open>
  The float operators.  \<^verbatim>\<open>x ** n\<close> calls the C library's \<^verbatim>\<open>pow\<close>, taken here as
  correctly rounded; at the bases 0 and 1 CPython returns the exact result itself.
\<close>

definition fadd :: "rat \<Rightarrow> rat \<Rightarrow> rat" where
  "fadd x y = fl (x + y)"

definition fsub :: "rat \<Rightarrow> rat \<Rightarrow> rat" where
  "fsub x y = fl (x - y)"

definition fmul :: "rat \<Rightarrow> rat \<Rightarrow> rat" where
  "fmul x y = fl (x * y)"

definition fdiv :: "rat \<Rightarrow> rat \<Rightarrow> rat" where
  "fdiv x y = fl (x / y)"

definition fpow :: "rat \<Rightarrow> nat \<Rightarrow> rat" where
  "fpow x n = fl (x ^ n)"

text \<open>\<^verbatim>\<open>float(n)\<close>, the conversion an \<^verbatim>\<open>int\<close> operand undergoes next to a float.\<close>

definition float_of_int :: "int \<Rightarrow> rat" where
  "float_of_int n = fl (of_int n)"

text \<open>\<^verbatim>\<open>a / b\<close> on two ints: the correctly rounded quotient.\<close>

definition py_truediv :: "int \<Rightarrow> int \<Rightarrow> rat" where
  "py_truediv a b = fl (of_int a / of_int b)"

text \<open>\<^verbatim>\<open>int(x)\<close> on a float truncates towards zero.\<close>

definition py_int :: "rat \<Rightarrow> int" where
  "py_int x = (if 0 \<le> x then \<lfloor>x\<rfloor> else \<lceil>x\<rceil>)"

section \<open>Errors, colours and drawing calls\<close>

datatype py_error = OSError | IndexError | ZeroDivisionError | ValueError | OtherError

type_synonym point = "rat \<times> rat"

datatype color = RGB int int int | RGBA int int int int

text \<open>
  The image objects of one run: the canvas, the glow layer, the canvas after
  compositing, and the flattened RGB image.  A draw handle is identified with its image.
\<close>

datatype image = Img | Glow_img | Img_composited | Img_rgb

datatype font = Truetype string int | Default_font

text \<open>
  The effect of the script is its sequence of Pillow calls.  Text is a list of Unicode
  code points.
\<close>

datatype draw_op =
    New_image image string "int \<times> int" color
  | Draw_line image "point list" color "int option"
  | Draw_ellipse image "rat list" color
  | Alpha_composite image image image
  | Draw_text image "int \<times> int" "nat list" color font
  | Draw_rounded_rectangle image "int list" int color
  | Paste_with_alpha_mask image image
  | Save_png image string
  | Print_saved string int int

definition BG_DARK :: color where "BG_DARK = RGB 30 47 60"
definition GREEN :: color where "GREEN = RGB 46 204 113"
definition ICON_WHITE :: color where "ICON_WHITE = RGB 220 225 230"
definition LINE_DIM :: color where "LINE_DIM = RGB 50 75 90"
definition DOT_DIM :: color where "DOT_DIM = RGB 55 80 95"
definition TEXT_COL :: color where "TEXT_COL = RGB 160 185 200"

section \<open>The curve renderer\<close>

definition steps :: nat where
  "steps = 80"

text \<open>One coordinate of the source's \<^verbatim>\<open>cubic_bezier\<close>, operators in Python's order.\<close>

definition bezier_coord :: "rat \<Rightarrow> rat \<Rightarrow> rat \<Rightarrow> rat \<Rightarrow> rat \<Rightarrow> rat \<Rightarrow> rat" where
  "bezier_coord u t a b c d =
     fadd (fadd (fadd (fmul (fpow u 3) a)
                      (fmul (fmul (fmul 3 (fpow u 2)) t) b))
                (fmul (fmul (fmul 3 u) (fpow t 2)) c))
          (fmul (fpow t 3) d)"

definition cubic_bezier :: "point \<Rightarrow> point \<Rightarrow> point \<Rightarrow> point \<Rightarrow> rat \<Rightarrow> point" where
  "cubic_bezier p0 p1 p2 p3 t =
     (let u = fsub 1 t
      in (bezier_coord u t (fst p0) (fst p1) (fst p2) (fst p3),
          bezier_coord u t (snd p0) (snd p1) (snd p2) (snd p3)))"

text \<open>The list \<^verbatim>\<open>all_pts\<close> built by the two sampling loops.\<close>

definition all_pts :: "point list \<Rightarrow> point list" where
  "all_pts points =
     map (\<lambda>i. cubic_bezier (points ! 0) (points ! 1) (points ! 2) (points ! 3)
                 (py_truediv (int i) (int steps))) [0..<steps + 1]
     @ map (\<lambda>i. cubic_bezier (points ! 3) (points ! 4) (points ! 5) (points ! 6)
                 (py_truediv (int i) (int steps))) [1..<steps + 1]"

text \<open>
  Indexing a list of fewer than seven points raises \<^verbatim>\<open>IndexError\<close> inside the sampling
  loops, before any line is drawn.
\<close>

definition draw_breeze_curve ::
  "image \<Rightarrow> point list \<Rightarrow> int \<Rightarrow> color \<Rightarrow> py_error + draw_op list" where
  "draw_breeze_curve draw points width color =
     (if length points < 7 then Inl IndexError
      else let pts = all_pts points
           in Inr (map (\<lambda>i. Draw_line draw [pts ! i, pts ! (i + 1)] color (Some width))
                       [0..<length pts - 1]))"

text \<open>The coordinates a drawing call touches.\<close>

fun line_coords :: "draw_op \<Rightarrow> point list" where
  "line_coords (Draw_line _ ps _ _) = ps"
| "line_coords _ = []"

section \<open>Sequencing calls that may raise\<close>

definition bind_err :: "'e + 'a \<Rightarrow> ('a \<Rightarrow> 'e + 'b) \<Rightarrow> 'e + 'b" where
  "bind_err m f = (case m of Inl e \<Rightarrow> Inl e | Inr x \<Rightarrow> f x)"

fun collect :: "('e + 'a list) list \<Rightarrow> 'e + 'a list" where
  "collect [] = Inr []"
| "collect (m # ms) = bind_err m (\<lambda>xs. bind_err (collect ms) (\<lambda>ys. Inr (xs @ ys)))"

text \<open>\<^verbatim>\<open>range(start, stop, step)\<close>; a zero step raises \<^verbatim>\<open>ValueError\<close>.\<close>

definition range_list :: "int \<Rightarrow> int \<Rightarrow> int \<Rightarrow> int list" where
  "range_list start stop step =
     (if 0 < step
      then map (\<lambda>k. start + int k * step) [0..<nat ((stop - start + step - 1) div step)]
      else map (\<lambda>k. start + int k * step) [0..<nat ((start - stop - step - 1) div (- step))])"

definition py_range :: "int \<Rightarrow> int \<Rightarrow> int \<Rightarrow> py_error + int list" where
  "py_range start stop step =
     (if step = 0 then Inl ValueError else Inr (range_list start stop step))"

section \<open>The icon\<close>

definition curves :: "(int \<times> int) list list" where
  "curves =
     [[(18, 30), (30, 18), (44, 42), (56, 30), (68, 18), (80, 34), (90, 26)],
      [(10, 50), (24, 36), (40, 64), (54, 50), (68, 36), (82, 56), (94, 46)],
      [(18, 70), (30, 58), (44, 82), (56, 70), (68, 58), (80, 74), (90, 66)]]"

text \<open>The offsets \<^verbatim>\<open>ox\<close>, \<^verbatim>\<open>oy\<close> and the map \<^verbatim>\<open>(ox + p[0] * s, oy + p[1] * s)\<close>.\<close>

definition icon_scale :: "rat \<Rightarrow> rat" where
  "icon_scale sz = fdiv sz 100"

definition icon_ox :: "rat \<Rightarrow> rat \<Rightarrow> rat" where
  "icon_ox cx s = fsub cx (fmul 52 s)"

definition icon_oy :: "rat \<Rightarrow> rat \<Rightarrow> rat" where
  "icon_oy cy s = fsub cy (fmul 50 s)"

definition scaled_point :: "rat \<Rightarrow> rat \<Rightarrow> rat \<Rightarrow> int \<times> int \<Rightarrow> point" where
  "scaled_point ox oy s p =
     (fadd ox (fmul (float_of_int (fst p)) s), fadd oy (fmul (float_of_int (snd p)) s))"

text \<open>
  The centre arrives as a number already converted to float.  A missing entry of
  \<^verbatim>\<open>line_widths\<close> raises \<^verbatim>\<open>IndexError\<close>.
\<close>

definition draw_icon ::
  "image \<Rightarrow> rat \<Rightarrow> rat \<Rightarrow> rat \<Rightarrow> color \<Rightarrow> int list \<Rightarrow> py_error + draw_op list" where
  "draw_icon draw cx cy sz color line_widths =
     (let s = icon_scale sz; ox = icon_ox cx s; oy = icon_oy cy s
      in collect
           (map (\<lambda>idx. let scaled = map (scaled_point ox oy s) (curves ! idx)
                        in if idx < length line_widths
                           then draw_breeze_curve draw scaled (line_widths ! idx) color
                           else Inl IndexError)
                [0..<length curves]))"

section \<open>Decorations\<close>

text \<open>
  \<^verbatim>\<open>math.pi\<close> is the double nearest to pi; \<^verbatim>\<open>math.sin\<close> is the C library's and enters
  as a parameter.  A zero wavelength raises \<^verbatim>\<open>ZeroDivisionError\<close> at the first sample.
\<close>

definition math_pi :: rat where
  "math_pi = 884279719003555 / 281474976710656"

definition draw_decorative_wave ::
  "(rat \<Rightarrow> rat) \<Rightarrow> image \<Rightarrow> rat \<Rightarrow> rat \<Rightarrow> rat \<Rightarrow> rat \<Rightarrow> rat \<Rightarrow> color \<Rightarrow> int
     \<Rightarrow> py_error + draw_op list" where
  "draw_decorative_wave math_sin draw y_base amplitude wavelength x_start x_end color width =
     (let xs = range_list (py_int x_start) (py_int x_end) 2
      in if xs \<noteq> [] \<and> wavelength = 0 then Inl ZeroDivisionError
         else let pts = map (\<lambda>x. (of_int x,
                                 fadd y_base
                                   (fmul amplitude
                                      (math_sin (fdiv (fmul (fmul 2 math_pi)
                                                            (fsub (float_of_int x) x_start))
                                                      wavelength)))))
                            xs
              in Inr (map (\<lambda>i. Draw_line draw [pts ! i, pts ! (i + 1)] color (Some width))
                          [0..<length pts - 1]))"

definition draw_grid_dots ::
  "image \<Rightarrow> int \<Rightarrow> int \<Rightarrow> int \<Rightarrow> int \<Rightarrow> int \<Rightarrow> color \<Rightarrow> int \<Rightarrow> draw_op list" where
  "draw_grid_dots draw x y rows cols spacing color radius =
     concat
       (map (\<lambda>r. map (\<lambda>c. let cx = x + c * spacing; cy = y + r * spacing
                         in Draw_ellipse draw
                              [of_int (cx - radius), of_int (cy - radius),
                               of_int (cx + radius), of_int (cy + radius)] color)
                     (map int [0..<nat cols]))
            (map int [0..<nat rows]))"
section \<open>The assembly pipeline\<close>

text \<open>
  What one run takes from its environment: whether \<^verbatim>\<open>ImageFont.truetype\<close> raises for a
  path and size, the box \<^verbatim>\<open>textbbox\<close> measures (taken as whole pixels), whether
  \<^verbatim>\<open>save\<close> raises for a file name, and \<^verbatim>\<open>math.sin\<close>.  Pillow's own checks of the
  canvas size in \<^verbatim>\<open>Image.new\<close> are not modelled.
\<close>

record environment =
  font_failure :: "string \<Rightarrow> int \<Rightarrow> py_error option"
  text_bbox :: "font \<Rightarrow> nat list \<Rightarrow> int \<times> int \<times> int \<times> int"
  save_failure :: "string \<Rightarrow> py_error option"
  math_sin :: "rat \<Rightarrow> rat"

definition BG_MID :: color where "BG_MID = RGB 36 58 74"

fun channel :: "color \<Rightarrow> nat \<Rightarrow> int" where
  "channel (RGB r g b) i = [r, g, b] ! i"
| "channel (RGBA r g b a) i = [r, g, b, a] ! i"

definition scale :: "int \<Rightarrow> rat" where
  "scale width = fdiv (float_of_int width) 1000"

definition gradient_channel :: "nat \<Rightarrow> rat \<Rightarrow> int" where
  "gradient_channel i t =
     py_int (fadd (fmul (float_of_int (channel BG_DARK i)) (fsub 1 (fmul t (fl (15/100)))))
                  (fmul (fmul (float_of_int (channel BG_MID i)) t) (fl (15/100))))"

definition background_gradient :: "int \<Rightarrow> int \<Rightarrow> draw_op list" where
  "background_gradient width height =
     map (\<lambda>y. let t = py_truediv y height
               in Draw_line Img [(0, of_int y), (of_int width, of_int y)]
                    (RGB (gradient_channel 0 t) (gradient_channel 1 t) (gradient_channel 2 t))
                    None)
         (range_list 0 height 1)"

definition grid_spacing :: "int \<Rightarrow> int" where
  "grid_spacing width = py_int (fmul 70 (scale width))"

definition grid_lines :: "int \<Rightarrow> int \<Rightarrow> py_error + draw_op list" where
  "grid_lines width height =
     (let grid_color = RGB 35 55 68
      in if grid_spacing width > 0
         then bind_err (py_range 0 width (grid_spacing width)) (\<lambda>xs.
              bind_err (py_range 0 height (grid_spacing width)) (\<lambda>ys.
              Inr (map (\<lambda>x. Draw_line Img [(of_int x, 0), (of_int x, of_int height)]
                               grid_color (Some 1)) xs
                   @ map (\<lambda>y. Draw_line Img [(0, of_int y), (of_int width, of_int y)]
                                 grid_color (Some 1)) ys)))
         else Inr [])"

definition dot_r :: "int \<Rightarrow> int" where
  "dot_r width = max 2 (py_int (fmul 3 (scale width)))"

definition dot_spacing :: "int \<Rightarrow> int" where
  "dot_spacing width = py_int (fmul 18 (scale width))"

definition corner_dots :: "int \<Rightarrow> draw_op list" where
  "corner_dots width =
     draw_grid_dots Img (py_int (fmul 55 (scale width))) (py_int (fmul 45 (scale width)))
       3 3 (dot_spacing width) DOT_DIM (dot_r width)
     @ draw_grid_dots Img (width - py_int (fmul 100 (scale width)))
         (py_int (fmul 45 (scale width))) 3 3 (dot_spacing width) DOT_DIM (dot_r width)"

definition wave_width :: "int \<Rightarrow> int" where
  "wave_width width = max 1 (py_int (fmul (fl (15/10)) (scale width)))"

definition decorative_waves :: "(rat \<Rightarrow> rat) \<Rightarrow> int \<Rightarrow> int \<Rightarrow> py_error + draw_op list" where
  "decorative_waves sin_fn width height =
     (let wave_y_base = fmul (float_of_int height) (fl (52/100))
      in collect
           (map (\<lambda>(i, offset).
                   let amp = fadd (fmul 12 (scale width)) (fmul (float_of_int (i * 2)) (scale width));
                       wl = fadd (fmul 350 (scale width)) (fmul (float_of_int (i * 50)) (scale width))
                   in draw_decorative_wave sin_fn Img
                        (fadd wave_y_base (fmul (float_of_int offset) (scale width)))
                        amp wl (fmul 30 (scale width))
                        (fsub (float_of_int width) (fmul 30 (scale width)))
                        LINE_DIM (wave_width width))
                (zip (map int [0..<5]) [- 40, - 15, 12, 38, 62])))"

text \<open>The glow loop: \<^verbatim>\<open>alpha\<close>, \<^verbatim>\<open>ex\<close> and \<^verbatim>\<open>ey\<close> for a loop value \<open>r\<close>.\<close>

definition glow_alpha :: "int \<Rightarrow> int" where
  "glow_alpha r = 8 * (20 - r)"

definition glow_rx :: "int \<Rightarrow> int" where
  "glow_rx width = py_int (fmul 90 (scale width))"

definition glow_ry :: "int \<Rightarrow> int" where
  "glow_ry width = py_int (fmul 30 (scale width))"

definition glow_ex :: "int \<Rightarrow> int \<Rightarrow> rat" where
  "glow_ex width r = fadd (float_of_int (glow_rx width)) (fmul (float_of_int (r * 3)) (scale width))"

definition glow_ey :: "int \<Rightarrow> int \<Rightarrow> rat" where
  "glow_ey width r = fadd (float_of_int (glow_ry width)) (fmul (float_of_int (r * 1)) (scale width))"

definition glow_ellipse :: "int \<Rightarrow> int \<Rightarrow> int \<Rightarrow> draw_op" where
  "glow_ellipse width height r =
     (let glow_cx = float_of_int (width div 2);
          glow_cy = float_of_int
                      (py_int (fadd (fmul (float_of_int height) (fl (46/100)))
                                    (fmul 45 (scale width))));
          ex = glow_ex width r; ey = glow_ey width r
      in Draw_ellipse Glow_img
           [fsub glow_cx ex, fsub glow_cy ey, fadd glow_cx ex, fadd glow_cy ey]
           (RGBA 46 204 113 (min (glow_alpha r) 50)))"

definition glow_loop :: "int list" where
  "glow_loop = range_list 20 0 (- 1)"

definition glow :: "int \<Rightarrow> int \<Rightarrow> draw_op list" where
  "glow width height =
     [New_image Glow_img ''RGBA'' (width, height) (RGBA 0 0 0 0)]
     @ map (glow_ellipse width height) glow_loop
     @ [Alpha_composite Img_composited Img Glow_img]"

text \<open>The centre of the glow, \<^verbatim>\<open>glow_cx\<close> and \<^verbatim>\<open>glow_cy\<close>, as the ints the code computes.\<close>

definition glow_cx :: "int \<Rightarrow> int" where
  "glow_cx width = width div 2"

definition glow_cy :: "int \<Rightarrow> int \<Rightarrow> int" where
  "glow_cy width height =
     py_int (fadd (fmul (float_of_int height) (fl (46/100))) (fmul 45 (scale width)))"

definition icon_lw :: "int \<Rightarrow> int list" where
  "icon_lw width =
     [max 2 (py_int (fmul 5 (scale width))),
      max 2 (py_int (fmul 4 (scale width))),
      max 1 (py_int (fmul (fl (32/10)) (scale width)))]"

definition icon_cx :: "int \<Rightarrow> int" where
  "icon_cx width = width div 2"

definition icon_cy :: "int \<Rightarrow> int" where
  "icon_cy height = py_int (fmul (float_of_int height) (fl (40/100)))"

definition icon_size :: "int \<Rightarrow> rat" where
  "icon_size width = fmul 160 (scale width)"

definition main_icon :: "int \<Rightarrow> int \<Rightarrow> py_error + draw_op list" where
  "main_icon width height =
     draw_icon Img_composited (float_of_int (icon_cx width)) (float_of_int (icon_cy height))
       (icon_size width) ICON_WHITE (icon_lw width)"
text \<open>
  The \<^verbatim>\<open>try\<close> block: the first failing \<^verbatim>\<open>truetype\<close> call leaves the block; an
  \<^verbatim>\<open>OSError\<close> (of which \<^verbatim>\<open>IOError\<close> is an alias) is caught and replaced by the default
  font for both fonts, any other exception propagates.
\<close>

definition font_path :: string where
  "font_path = ''/System/Library/Fonts/Helvetica.ttc''"

definition font_size :: "int \<Rightarrow> int" where
  "font_size width = max 10 (py_int (fmul 16 (scale width)))"

definition small_font_size :: "int \<Rightarrow> int" where
  "small_font_size width = max 8 (py_int (fmul 12 (scale width)))"

definition truetype :: "environment \<Rightarrow> string \<Rightarrow> int \<Rightarrow> py_error + font" where
  "truetype env path sz =
     (case font_failure env path sz of Some e \<Rightarrow> Inl e | None \<Rightarrow> Inr (Truetype path sz))"

definition load_fonts :: "environment \<Rightarrow> int \<Rightarrow> py_error + font \<times> font" where
  "load_fonts env width =
     (case bind_err (truetype env font_path (font_size width)) (\<lambda>font.
           bind_err (truetype env font_path (small_font_size width)) (\<lambda>small_font.
           Inr (font, small_font)))
      of Inr fonts \<Rightarrow> Inr fonts
       | Inl e \<Rightarrow> if e = OSError then Inr (Default_font, Default_font) else Inl e)"

definition readings :: "(nat list \<times> color) list" where
  "readings =
     [([50, 50, 46, 52, 176, 67], GREEN),
      ([53, 56, 46, 50, 37], GREEN),
      ([67, 79, 8322, 32, 32, 52, 49, 50, 32, 112, 112, 109], GREEN),
      ([86, 79, 67, 32, 32, 73, 110, 100, 101, 120, 32, 57, 56], GREEN)]"

definition text_y :: "int \<Rightarrow> int" where
  "text_y height = py_int (fmul (float_of_int height) (fl (76/100)))"

definition sensor_readings :: "environment \<Rightarrow> int \<Rightarrow> int \<Rightarrow> font \<Rightarrow> draw_op list" where
  "sensor_readings env width height font =
     (let section_w = py_truediv width (int (length readings))
      in map (\<lambda>(i, (text, color)).
                let tx = py_int (fadd (fmul section_w (float_of_int i)) (fdiv section_w 2));
                    (x0, y0, x1, y1) = text_bbox env font text;
                    tw = x1 - x0
                in Draw_text Img_composited (tx - tw div 2, text_y height) text TEXT_COL font)
             (zip (map int [0..<length readings]) readings))"

definition bar_y :: "int \<Rightarrow> int" where
  "bar_y height = py_int (fmul (float_of_int height) (fl (84/100)))"

definition bar_h :: "int \<Rightarrow> int" where
  "bar_h width = max 2 (py_int (fmul 4 (scale width)))"

definition bar_w :: "int \<Rightarrow> int" where
  "bar_w width = py_int (fmul 250 (scale width))"

definition bar_x :: "int \<Rightarrow> int" where
  "bar_x width = (width - bar_w width) div 2"

definition fill_w :: "int \<Rightarrow> int" where
  "fill_w width = py_int (fmul (float_of_int (bar_w width)) (fl (6/10)))"

definition progress_bar :: "int \<Rightarrow> int \<Rightarrow> draw_op list" where
  "progress_bar width height =
     [Draw_rounded_rectangle Img_composited
        [bar_x width, bar_y height, bar_x width + bar_w width, bar_y height + bar_h width]
        (bar_h width div 2) (RGB 40 60 75),
      Draw_rounded_rectangle Img_composited
        [bar_x width, bar_y height, bar_x width + fill_w width, bar_y height + bar_h width]
        (bar_h width div 2) GREEN]"

definition save_image :: "environment \<Rightarrow> int \<Rightarrow> int \<Rightarrow> string \<Rightarrow> py_error + draw_op list" where
  "save_image env width height filename =
     (case save_failure env filename of
        Some e \<Rightarrow> Inl e
      | None \<Rightarrow> Inr [New_image Img_rgb ''RGB'' (width, height) BG_DARK,
                     Paste_with_alpha_mask Img_rgb Img_composited,
                     Save_png Img_rgb filename,
                     Print_saved filename width height])"

definition generate_image ::
  "environment \<Rightarrow> int \<Rightarrow> int \<Rightarrow> string \<Rightarrow> py_error + draw_op list" where
  "generate_image env width height filename =
     bind_err (grid_lines width height) (\<lambda>grid.
     bind_err (decorative_waves (math_sin env) width height) (\<lambda>waves.
     bind_err (main_icon width height) (\<lambda>icon.
     bind_err (load_fonts env width) (\<lambda>(font, small_font).
     bind_err (save_image env width height filename) (\<lambda>saved.
     Inr ([New_image Img ''RGBA'' (width, height) BG_DARK]
          @ background_gradient width height
          @ grid
          @ corner_dots width
          @ waves
          @ glow width height
          @ icon
          @ sensor_readings env width height font
          @ progress_bar width height
          @ saved))))))"
text \<open>
  A test environment: a machine without the Helvetica file, where every \<^verbatim>\<open>truetype\<close>
  call raises \<^verbatim>\<open>OSError\<close> and saving succeeds.  Text measurement and the sine are
  placeholders; no property below depends on their values.
\<close>

definition no_font_env :: environment where
  "no_font_env =
     \<lparr>font_failure = (\<lambda>path sz. Some OSError),
      text_bbox = (\<lambda>font text. (0, 0, 6 * int (length text), 11)),
      save_failure = (\<lambda>filename. None),
      math_sin = (\<lambda>x. 0)\<rparr>"

section \<open>Ranges and reference formulas\<close>

text \<open>
  A double of moderate magnitude: zero, or between \<open>2^-300\<close> and \<open>2^300\<close> in absolute
  value.  On such operands no operation of the curve renderer or of the icon composer
  overflows or underflows, so the rounding function above is the machine's.
\<close>

definition moderate :: "rat \<Rightarrow> bool" where
  "moderate x \<longleftrightarrow> is_double x \<and> (x = 0 \<or> 2 powi (- 300) \<le> \<bar>x\<bar> \<and> \<bar>x\<bar> \<le> 2 powi 300)"


section \<open>Properties of the rounding function\<close>

lemma bind_err_simps:
  "bind_err (Inl e) f = Inl e" "bind_err (Inr x) f = f x"
  by (simp_all add: bind_err_def)

lemma rhe_of_int: "round_half_even (of_int n) = n"
  by (simp add: round_half_even_def)

lemma rhe_lower: "x - 1/2 \<le> of_int (round_half_even x)"
  unfolding round_half_even_def Let_def by (auto; linarith)

lemma rhe_upper: "of_int (round_half_even x) \<le> x + 1/2"
  unfolding round_half_even_def Let_def by (auto; linarith)

lemma rhe_mono:
  assumes "x \<le> y" shows "round_half_even x \<le> round_half_even y"
proof (cases "\<lfloor>x\<rfloor> = \<lfloor>y\<rfloor>")
  case True
  then show ?thesis using assms unfolding round_half_even_def Let_def by auto
next
  case False
  then have "\<lfloor>x\<rfloor> < \<lfloor>y\<rfloor>" using assms floor_mono[OF assms] by linarith
  then have "\<lfloor>x\<rfloor> + 1 \<le> \<lfloor>y\<rfloor>" by simp
  moreover have "round_half_even x \<le> \<lfloor>x\<rfloor> + 1"
    unfolding round_half_even_def Let_def by auto
  moreover have "\<lfloor>y\<rfloor> \<le> round_half_even y"
    unfolding round_half_even_def Let_def by auto
  ultimately show ?thesis by linarith
qed

lemma binade_bounds:
  assumes "0 < x"
  shows "2 powi binade x \<le> x \<and> x < 2 powi (binade x + 1)"
proof -
  obtain p q where pq: "quotient_of x = (p, q)" by force
  have q: "0 < q" using quotient_of_denom_pos[OF pq] .
  have x: "x = of_int p / of_int q" using quotient_of_div[OF pq] .
  have p: "0 < p" using assms q unfolding x by (simp add: zero_less_divide_iff)
  define a where "a = bitlen p"
  define b where "b = bitlen q"
  have a1: "1 \<le> a" using p unfolding a_def by (auto simp: bitlen_alt_def)
  have b1: "1 \<le> b" using q unfolding b_def by (auto simp: bitlen_alt_def)
  have pb: "2 ^ nat (a - 1) \<le> p" "p < 2 ^ nat a"
    using bitlen_bounds[OF p] unfolding a_def by auto
  have qb: "2 ^ nat (b - 1) \<le> q" "q < 2 ^ nat b"
    using bitlen_bounds[OF q] unfolding b_def by auto
  have pbr: "(2::rat) powi (a - 1) \<le> of_int p" "of_int p < (2::rat) powi a"
  proof -
    have "(of_int (2 ^ nat (a - 1)) :: rat) \<le> of_int p" using pb(1) by (simp only: of_int_le_iff)
    then show "(2::rat) powi (a - 1) \<le> of_int p" using a1 by (simp add: power_int_def)
    have "(of_int p :: rat) < of_int (2 ^ nat a)" using pb(2) by (simp only: of_int_less_iff)
    then show "of_int p < (2::rat) powi a" using a1 by (simp add: power_int_def)
  qed
  have qbr: "(2::rat) powi (b - 1) \<le> of_int q" "of_int q < (2::rat) powi b"
  proof -
    have "(of_int (2 ^ nat (b - 1)) :: rat) \<le> of_int q" using qb(1) by (simp only: of_int_le_iff)
    then show "(2::rat) powi (b - 1) \<le> of_int q" using b1 by (simp add: power_int_def)
    have "(of_int q :: rat) < of_int (2 ^ nat b)" using qb(2) by (simp only: of_int_less_iff)
    then show "of_int q < (2::rat) powi b" using b1 by (simp add: power_int_def)
  qed
  have qpos: "(0::rat) < of_int q" using q by simp
  have up: "x < 2 powi (a - b + 1)"
  proof -
    have "of_int p < (2::rat) powi a" by (rule pbr(2))
    also have "\<dots> = 2 powi (a - b + 1) * 2 powi (b - 1)"
      by (simp flip: power_int_add)
    also have "\<dots> \<le> 2 powi (a - b + 1) * of_int q"
      using qbr(1) by (intro mult_left_mono) auto
    finally show ?thesis unfolding x using qpos by (simp add: field_simps)
  qed
  have lo: "2 powi (a - b - 1) \<le> x"
  proof -
    have "2 powi (a - b - 1) * of_int q \<le> 2 powi (a - b - 1) * (2::rat) powi b"
      using qbr(2) by (intro mult_left_mono) auto
    also have "\<dots> = 2 powi (a - 1)" by (simp flip: power_int_add)
    also have "\<dots> \<le> of_int p" by (rule pbr(1))
    finally show ?thesis unfolding x using qpos by (simp add: field_simps)
  qed
  show ?thesis
  proof (cases "(2::rat) powi (a - b) \<le> x")
    case True
    then have "binade x = a - b" unfolding binade_def pq a_def b_def by simp
    then show ?thesis using True up by simp
  next
    case False
    then have "binade x = a - b - 1" unfolding binade_def pq a_def b_def by simp
    then show ?thesis using False lo by simp
  qed
qed

lemma pow2_less_imp: "(2::rat) powi a < 2 powi b \<Longrightarrow> a < b"
  using power_int_increasing[of b a "2::rat"] by (cases "a < b") auto
 
lemma binade_unique:
  assumes "2 powi e \<le> x" "x < 2 powi (e + 1)"
  shows "binade x = e"
proof -
  have x: "0 < x" using assms(1) by (rule less_le_trans[rotated]) simp
  note b = binade_bounds[OF x]
  have "(2::rat) powi e < 2 powi (binade x + 1)" using assms(1) b by linarith
  then have 1: "e < binade x + 1" by (rule pow2_less_imp)
  have "(2::rat) powi binade x < 2 powi (e + 1)" using assms(2) b by linarith
  then have 2: "binade x < e + 1" by (rule pow2_less_imp)
  show ?thesis using 1 2 by simp
qed

lemma pow2_add: "(2::rat) powi (a + b) = 2 powi a * 2 powi b"
  by (simp add: power_int_add)

lemma fl_pos_form:
  assumes "2 powi e \<le> x" "x < 2 powi (e + 1)"
  shows "fl x = of_int (round_half_even (x * 2 powi (52 - e))) * 2 powi (e - 52)"
proof -
  have x: "0 < x" using assms(1) by (rule less_le_trans[rotated]) simp
  have b: "binade \<bar>x\<bar> = e" using binade_unique[OF assms] x by simp
  have "\<bar>x\<bar> / 2 powi (e - 52) = x * 2 powi (52 - e)"
    using x by (simp add: power_int_diff field_simps)
  then show ?thesis using x b unfolding fl_def Let_def by simp
qed

lemma fl_zero: "fl 0 = 0"
  by (simp add: fl_def)

lemma fl_minus: "fl (- x) = - fl x"
  by (simp add: fl_def Let_def sgn_minus)

lemma fl_range:
  assumes "2 powi e \<le> x" "x < 2 powi (e + 1)"
  shows "2 powi e \<le> fl x \<and> fl x \<le> 2 powi (e + 1)"
proof -
  let ?s = "(2::rat) powi (52 - e)"
  have lo: "(2::rat) ^ 52 \<le> x * ?s"
  proof -
    have "(2::rat) ^ 52 = 2 powi e * ?s" by (simp flip: power_int_add)
    also have "\<dots> \<le> x * ?s" using assms(1) by (intro mult_right_mono) auto
    finally show ?thesis .
  qed
  have hi: "x * ?s \<le> (2::rat) ^ 53"
  proof -
    have "x * ?s \<le> 2 powi (e + 1) * ?s" using assms(2) by (intro mult_right_mono) auto
    also have "\<dots> = 2 ^ 53" by (simp flip: power_int_add)
    finally show ?thesis .
  qed
  have "round_half_even (of_int (2 ^ 52)) \<le> round_half_even (x * ?s)"
    by (rule rhe_mono) (use lo in simp)
  then have 1: "2 ^ 52 \<le> round_half_even (x * ?s)" by (simp only: rhe_of_int)
  have "round_half_even (x * ?s) \<le> round_half_even (of_int (2 ^ 53))"
    by (rule rhe_mono) (use hi in simp)
  then have 2: "round_half_even (x * ?s) \<le> 2 ^ 53" by (simp only: rhe_of_int)
  have f: "fl x = of_int (round_half_even (x * ?s)) * 2 powi (e - 52)"
    by (rule fl_pos_form[OF assms])
  have "(2::rat) powi e = 2 powi 52 * 2 powi (e - 52)" using pow2_add[of 52 "e - 52"] by simp
  also have "\<dots> = of_int (2 ^ 52) * 2 powi (e - 52)" by simp
  also have "\<dots> \<le> of_int (round_half_even (x * ?s)) * 2 powi (e - 52)"
    using 1 by (intro mult_right_mono) (auto simp only: of_int_le_iff zero_le_power_int zero_le_numeral)
  finally have A: "2 powi e \<le> fl x" unfolding f .
  have "of_int (round_half_even (x * ?s)) * (2::rat) powi (e - 52) \<le> of_int (2 ^ 53) * 2 powi (e - 52)"
    using 2 by (intro mult_right_mono) (auto simp only: of_int_le_iff zero_le_power_int zero_le_numeral)
  also have "\<dots> = 2 powi 53 * 2 powi (e - 52)" by simp
  also have "\<dots> = 2 powi (e + 1)" using pow2_add[of 53 "e - 52"] by (simp add: add.commute)
  finally have B: "fl x \<le> 2 powi (e + 1)" unfolding f .
  show ?thesis using A B by simp
qed

lemma fl_mono_pos:
  assumes "0 < x" "x \<le> y"
  shows "fl x \<le> fl y"
proof -
  have y: "0 < y" using assms by simp
  define e where "e = binade x"
  define e' where "e' = binade y"
  have bx: "2 powi e \<le> x" "x < 2 powi (e + 1)" using binade_bounds[OF assms(1)] unfolding e_def by auto
  have cy: "2 powi e' \<le> y" "y < 2 powi (e' + 1)" using binade_bounds[OF y] unfolding e'_def by auto
  have "(2::rat) powi e < 2 powi (e' + 1)" using bx(1) assms(2) cy(2) by linarith
  then have ee: "e \<le> e'" using pow2_less_imp by fastforce
  show ?thesis
  proof (cases "e = e'")
    case True
    have "round_half_even (x * 2 powi (52 - e)) \<le> round_half_even (y * 2 powi (52 - e))"
      by (rule rhe_mono) (use assms(2) in \<open>intro mult_right_mono; simp\<close>)
    then have "(of_int (round_half_even (x * 2 powi (52 - e))) :: rat) * 2 powi (e - 52)
                 \<le> of_int (round_half_even (y * 2 powi (52 - e))) * 2 powi (e - 52)"
      by (intro mult_right_mono) (auto simp only: of_int_le_iff zero_le_power_int zero_le_numeral)
    then show ?thesis
      using fl_pos_form[OF bx] fl_pos_form[OF cy] True by simp
  next
    case False
    then have "e + 1 \<le> e'" using ee by simp
    then have "(2::rat) powi (e + 1) \<le> 2 powi e'" by (intro power_int_increasing) auto
    then show ?thesis using fl_range[OF bx] fl_range[OF cy] by linarith
  qed
qed

lemma fl_pos: "0 < x \<Longrightarrow> 0 < fl x"
  using fl_range[of "binade x" x] binade_bounds[of x]
  by (meson less_le_trans zero_less_numeral zero_less_power_int)

lemma fl_mono:
  assumes "x \<le> y"
  shows "fl x \<le> fl y"
proof -
  consider "0 < x" | "x \<le> 0" "0 \<le> y" | "y < 0" by linarith
  then show ?thesis
  proof cases
    case 1 then show ?thesis using fl_mono_pos assms by simp
  next
    case 2
    have "fl x \<le> 0" using 2(1) fl_pos[of "- x"] by (cases "x = 0") (auto simp: fl_minus fl_zero)
    moreover have "0 \<le> fl y" using 2(2) fl_pos[of y] by (cases "y = 0") (auto simp: fl_zero)
    ultimately show ?thesis by simp
  next
    case 3
    then have "fl (- y) \<le> fl (- x)" using assms by (intro fl_mono_pos) auto
    then show ?thesis by (simp add: fl_minus)
  qed
qed

lemma fl_exact_pos:
  assumes "0 < m" "m < 2 ^ 53"
  shows "fl (of_int m * 2 powi k) = of_int m * 2 powi k"
proof -
  define a where "a = bitlen m - 1"
  have a0: "0 \<le> a" using assms(1) unfolding a_def by (auto simp: bitlen_alt_def)
  have "bitlen m \<le> 53" using assms(2) by (simp add: bitlen_le_iff_power)
  then have a52: "a \<le> 52" unfolding a_def by simp
  have mb: "2 ^ nat a \<le> m" "m < 2 ^ nat (a + 1)"
    using bitlen_bounds[OF assms(1)] unfolding a_def by auto
  have mbr: "(2::rat) powi a \<le> of_int m" "of_int m < (2::rat) powi (a + 1)"
  proof -
    have "(of_int (2 ^ nat a) :: rat) \<le> of_int m" using mb(1) by (simp only: of_int_le_iff)
    then show "(2::rat) powi a \<le> of_int m" using a0 by (simp add: power_int_def)
    have "(of_int m :: rat) < of_int (2 ^ nat (a + 1))" using mb(2) by (simp only: of_int_less_iff)
    then show "of_int m < (2::rat) powi (a + 1)" using a0 by (simp add: power_int_def)
  qed
  let ?x = "of_int m * (2::rat) powi k"
  have lo: "2 powi (a + k) \<le> ?x"
    unfolding pow2_add using mbr(1) by (intro mult_right_mono) auto
  have hi: "?x < 2 powi (a + k + 1)"
    using mbr(2) pow2_add[of "a + 1" k] by (simp add: add.commute add.left_commute)
  have "?x * 2 powi (52 - (a + k)) = of_int m * (2 powi k * 2 powi (52 - (a + k)))" by simp
  also have "2 powi k * (2::rat) powi (52 - (a + k)) = 2 powi (52 - a)"
    using pow2_add[of k "52 - (a + k)"] by simp
  also have "(2::rat) powi (52 - a) = of_int (2 ^ nat (52 - a))"
    using a52 by (simp add: power_int_def)
  finally have "?x * 2 powi (52 - (a + k)) = of_int (m * 2 ^ nat (52 - a))" by simp
  then have r: "round_half_even (?x * 2 powi (52 - (a + k))) = m * 2 ^ nat (52 - a)"
    by (simp only: rhe_of_int)
  have "fl ?x = of_int (m * 2 ^ nat (52 - a)) * 2 powi (a + k - 52)"
    using fl_pos_form[OF lo hi] r by simp
  also have "\<dots> = of_int m * (2 powi (52 - a) * 2 powi (a + k - 52))"
    using a52 by (simp add: power_int_def)
  also have "2 powi (52 - a) * (2::rat) powi (a + k - 52) = 2 powi k"
    using pow2_add[of "52 - a" "a + k - 52"] by simp
  finally show ?thesis .
qed

lemma fl_exact:
  assumes "\<bar>m\<bar> < 2 ^ 53"
  shows "fl (of_int m * 2 powi k) = of_int m * 2 powi k"
proof -
  consider "m = 0" | "0 < m" | "m < 0" by linarith
  then show ?thesis
  proof cases
    case 1 then show ?thesis by (simp add: fl_zero)
  next
    case 2 then show ?thesis using assms by (intro fl_exact_pos) auto
  next
    case 3
    then have "fl (of_int (- m) * 2 powi k) = of_int (- m) * 2 powi k"
      using assms by (intro fl_exact_pos) auto
    then show ?thesis using fl_minus[of "of_int m * 2 powi k"] by simp
  qed
qed

lemma fl_of_int: "\<bar>m\<bar> < 2 ^ 53 \<Longrightarrow> fl (of_int m) = of_int m"
  using fl_exact[of m 0] by simp

lemma fl_idem_pos:
  assumes "0 < x"
  shows "fl (fl x) = fl x"
proof -
  define e where "e = binade x"
  have bx: "2 powi e \<le> x" "x < 2 powi (e + 1)"
    using binade_bounds[OF assms] unfolding e_def by auto
  define n where "n = round_half_even (x * 2 powi (52 - e))"
  have f: "fl x = of_int n * 2 powi (e - 52)"
    unfolding n_def by (rule fl_pos_form[OF bx])
  have r: "2 powi e \<le> fl x" "fl x \<le> 2 powi (e + 1)" using fl_range[OF bx] by auto
  have n0: "0 < n"
  proof (rule ccontr)
    assume "\<not> 0 < n"
    then have "(of_int n :: rat) \<le> 0" by simp
    then have "of_int n * (2::rat) powi (e - 52) \<le> 0"
      by (simp add: mult_le_0_iff)
    moreover have "(0::rat) < 2 powi e" by simp
    ultimately show False using r(1) f by linarith
  qed
  have n53: "n \<le> 2 ^ 53"
  proof -
    have "of_int n * (2::rat) powi (e - 52) \<le> 2 powi 53 * 2 powi (e - 52)"
      using r(2) f pow2_add[of 53 "e - 52"] by (simp add: add.commute)
    then have "(of_int n :: rat) \<le> 2 powi 53" by (simp del: power_int_numeral)
    then have "(of_int n :: rat) \<le> of_int (2 ^ 53)" by simp
    then show ?thesis by (simp only: of_int_le_iff)
  qed
  show ?thesis
  proof (cases "n = 2 ^ 53")
    case True
    then have "fl x = of_int 1 * 2 powi (e + 1)"
      using f pow2_add[of 53 "e - 52"] by (simp add: add.commute)
    then show ?thesis using fl_exact[of 1 "e + 1"] by simp
  next
    case False
    then have "\<bar>n\<bar> < 2 ^ 53" using n0 n53 by simp
    then show ?thesis unfolding f by (rule fl_exact)
  qed
qed

lemma fl_idem: "fl (fl x) = fl x"
proof -
  consider "x = 0" | "0 < x" | "x < 0" by linarith
  then show ?thesis
  proof cases
    case 1 then show ?thesis by (simp add: fl_zero)
  next
    case 2 then show ?thesis by (rule fl_idem_pos)
  next
    case 3
    then have "fl (fl (- x)) = fl (- x)" by (intro fl_idem_pos) simp
    then show ?thesis by (simp add: fl_minus)
  qed
qed

lemma fl_nonneg: "0 \<le> x \<Longrightarrow> 0 \<le> fl x"
  using fl_mono[of 0 x] by (simp add: fl_zero)

lemma fl_nonpos: "x \<le> 0 \<Longrightarrow> fl x \<le> 0"
  using fl_mono[of x 0] by (simp add: fl_zero)

lemma fl_neg: "x < 0 \<Longrightarrow> fl x < 0"
  using fl_pos[of "- x"] by (simp add: fl_minus)

lemma fl_eq_0_iff: "fl x = 0 \<longleftrightarrow> x = 0"
proof
  assume "fl x = 0"
  then show "x = 0" using fl_pos[of x] fl_neg[of x] by (cases "0 < x"; cases "x < 0") auto
qed (simp add: fl_zero)

lemma fl_err_pos:
  assumes "0 < x"
  shows "\<bar>fl x - x\<bar> \<le> x / 2 ^ 53"
proof -
  define e where "e = binade x"
  have bx: "2 powi e \<le> x" "x < 2 powi (e + 1)"
    using binade_bounds[OF assms] unfolding e_def by auto
  define y where "y = x * 2 powi (52 - e)"
  define n where "n = round_half_even y"
  have f: "fl x = of_int n * 2 powi (e - 52)"
    unfolding n_def y_def by (rule fl_pos_form[OF bx])
  have x: "x = y * 2 powi (e - 52)"
    unfolding y_def using pow2_add[of "52 - e" "e - 52"] by simp
  have "\<bar>of_int n - y\<bar> \<le> 1/2"
    using rhe_lower[of y] rhe_upper[of y] unfolding n_def by linarith
  then have "\<bar>of_int n - y\<bar> * 2 powi (e - 52) \<le> 1/2 * 2 powi (e - 52)"
    by (intro mult_right_mono) auto
  moreover have "\<bar>fl x - x\<bar> = \<bar>of_int n - y\<bar> * 2 powi (e - 52)"
  proof -
    have "fl x - x = (of_int n - y) * 2 powi (e - 52)"
      using f x by (simp add: algebra_simps)
    then show ?thesis by (simp add: abs_mult)
  qed
  moreover have "1/2 * (2::rat) powi (e - 52) = 2 powi e / 2 ^ 53"
    using pow2_add[of "e - 52" 52] by (simp add: field_simps)
  moreover have "(2::rat) powi e / 2 ^ 53 \<le> x / 2 ^ 53"
    using bx(1) by (simp add: divide_right_mono)
  ultimately show ?thesis by linarith
qed

lemma fl_err: "\<bar>fl x - x\<bar> \<le> \<bar>x\<bar> / 2 ^ 53"
proof -
  consider "x = 0" | "0 < x" | "x < 0" by linarith
  then show ?thesis
  proof cases
    case 1 then show ?thesis by (simp add: fl_zero)
  next
    case 2 then show ?thesis using fl_err_pos[of x] by simp
  next
    case 3
    then have "\<bar>fl (- x) - (- x)\<bar> \<le> (- x) / 2 ^ 53" by (intro fl_err_pos) simp
    moreover have "\<bar>fl (- x) - (- x)\<bar> = \<bar>fl x - x\<bar>" by (simp add: fl_minus)
    ultimately show ?thesis using 3 by simp
  qed
qed

lemma py_int_nonneg: "0 \<le> x \<Longrightarrow> 0 \<le> py_int x"
  by (simp add: py_int_def)

lemma py_int_of_int: "py_int (of_int n) = n"
  by (simp add: py_int_def)

lemma py_int_mono:
  assumes "x \<le> y"
  shows "py_int x \<le> py_int y"
proof -
  consider "0 \<le> x" | "x < 0" "0 \<le> y" | "y < 0" by linarith
  then show ?thesis
  proof cases
    case 1 then show ?thesis using assms by (simp add: py_int_def floor_mono)
  next
    case 2
    have "\<lceil>x\<rceil> \<le> 0" using 2(1) by (simp add: ceiling_le_zero)
    moreover have "0 \<le> \<lfloor>y\<rfloor>" using 2(2) by simp
    ultimately have "\<lceil>x\<rceil> \<le> \<lfloor>y\<rfloor>" by linarith
    then show ?thesis using 2 by (simp add: py_int_def)
  next
    case 3 then show ?thesis using assms by (simp add: py_int_def ceiling_mono)
  qed
qed

lemma scale_nonneg: "0 \<le> width \<Longrightarrow> 0 \<le> scale width"
  unfolding scale_def fdiv_def float_of_int_def
  by (intro fl_nonneg divide_nonneg_nonneg) auto

lemma scale_pos: "0 < width \<Longrightarrow> 0 < scale width"
  unfolding scale_def fdiv_def float_of_int_def
  by (intro fl_pos divide_pos_pos) auto

lemma scale_mono: "w \<le> w' \<Longrightarrow> scale w \<le> scale w'"
  unfolding scale_def fdiv_def float_of_int_def
  by (intro fl_mono divide_right_mono) auto

lemma scaled_nonneg: "0 \<le> c \<Longrightarrow> 0 \<le> width \<Longrightarrow> 0 \<le> py_int (fmul c (scale width))"
  unfolding fmul_def by (intro py_int_nonneg fl_nonneg mult_nonneg_nonneg scale_nonneg)

lemma scaled_mono:
  "0 \<le> c \<Longrightarrow> w \<le> w' \<Longrightarrow> py_int (fmul c (scale w)) \<le> py_int (fmul c (scale w'))"
  unfolding fmul_def by (intro py_int_mono fl_mono mult_left_mono scale_mono)

lemma fl_lower:
  assumes "0 \<le> x"
  shows "x * (1 - 1 / 2 ^ 53) \<le> fl x"
proof -
  have "x - fl x \<le> x / 2 ^ 53" using fl_err[of x] assms by linarith
  moreover have "x * (1 - 1 / 2 ^ 53) = x - x / 2 ^ 53" by (simp add: algebra_simps)
  ultimately show ?thesis by linarith
qed

lemma fl_upper:
  assumes "0 \<le> x"
  shows "fl x \<le> x * (1 + 1 / 2 ^ 53)"
proof -
  have "fl x - x \<le> x / 2 ^ 53" using fl_err[of x] assms by linarith
  moreover have "x * (1 + 1 / 2 ^ 53) = x + x / 2 ^ 53" by (simp add: algebra_simps)
  ultimately show ?thesis by linarith
qed

lemma fl_32_nonneg: "0 \<le> fl (32/10)"
  by (intro fl_nonneg) simp

lemma scale_nonpos: "width \<le> 0 \<Longrightarrow> scale width \<le> 0"
  unfolding scale_def fdiv_def float_of_int_def
  by (intro fl_nonpos divide_nonpos_nonneg) auto

lemma py_int_nonpos: "x \<le> 0 \<Longrightarrow> py_int x \<le> 0"
  by (cases "x = 0") (auto simp: py_int_def ceiling_le_zero)

lemma scaled_nonpos: "0 \<le> c \<Longrightarrow> width \<le> 0 \<Longrightarrow> py_int (fmul c (scale width)) \<le> 0"
  unfolding fmul_def
  by (intro py_int_nonpos fl_nonpos mult_nonneg_nonpos scale_nonpos)

lemma grid_spacing_14: "grid_spacing 14 = 0" by code_simp
lemma grid_spacing_15: "grid_spacing 15 = 1" by code_simp

lemma grid_spacing_mono: "w \<le> w' \<Longrightarrow> grid_spacing w \<le> grid_spacing w'"
  unfolding grid_spacing_def by (intro scaled_mono) auto

lemma grid_spacing_nonneg: "0 \<le> width \<Longrightarrow> 0 \<le> grid_spacing width"
  unfolding grid_spacing_def by (intro scaled_nonneg) auto

lemma grid_spacing_zero_iff:
  assumes "0 < width"
  shows "grid_spacing width = 0 \<longleftrightarrow> width < 15"
proof
  assume z: "grid_spacing width = 0"
  show "width < 15"
  proof (rule ccontr)
    assume "\<not> width < 15"
    then have "grid_spacing 15 \<le> grid_spacing width" by (intro grid_spacing_mono) simp
    then show False using z grid_spacing_15 by simp
  qed
next
  assume "width < 15"
  then have "grid_spacing width \<le> grid_spacing 14" by (intro grid_spacing_mono) simp
  moreover have "0 \<le> grid_spacing width" using assms by (intro grid_spacing_nonneg) simp
  ultimately show "grid_spacing width = 0" using grid_spacing_14 by simp
qed

lemma grid_lines_returns: "\<exists>ops. grid_lines width height = Inr ops"
  by (simp add: grid_lines_def Let_def py_range_def bind_err_simps)

lemma float_of_int_exact: "\<bar>n\<bar> < 2 ^ 53 \<Longrightarrow> float_of_int n = of_int n"
  by (simp add: float_of_int_def fl_of_int)

lemma scale_nearest: "\<bar>width\<bar> < 2 ^ 53 \<Longrightarrow> scale width = fl (of_int width / 1000)"
  by (simp add: scale_def fdiv_def float_of_int_exact)

lemma scale_250: "scale 250 = 1 / 4" by code_simp
lemma scale_500: "scale 500 = 1 / 2" by code_simp
lemma scale_1000: "scale 1000 = 1" by code_simp

lemma fl_15_nonneg: "0 \<le> fl (15/10)"
  by (intro fl_nonneg) simp

lemma fill_w_nonneg: "0 \<le> width \<Longrightarrow> 0 \<le> fill_w width"
proof -
  assume w: "0 \<le> width"
  have "0 \<le> bar_w width" unfolding bar_w_def using w by (intro scaled_nonneg) auto
  then have "0 \<le> float_of_int (bar_w width)"
    unfolding float_of_int_def by (intro fl_nonneg) simp
  moreover have "(0::rat) \<le> fl (6/10)" by (intro fl_nonneg) simp
  ultimately have "0 \<le> float_of_int (bar_w width) * fl (6/10)"
    by (rule mult_nonneg_nonneg)
  then show ?thesis
    unfolding fill_w_def fmul_def by (intro py_int_nonneg fl_nonneg)
qed

lemma rhe_near:
  assumes "\<bar>y - of_int n\<bar> < 1/2"
  shows "round_half_even y = n"
proof -
  have "of_int (round_half_even y) - (of_int n :: rat) < 1"
    using rhe_upper[of y] assms by linarith
  moreover have "(of_int n :: rat) - of_int (round_half_even y) < 1"
    using rhe_lower[of y] assms by linarith
  ultimately have "(of_int (round_half_even y - n) :: rat) < 1"
    "(of_int (n - round_half_even y) :: rat) < 1" by simp_all
  then have "round_half_even y - n < 1" "n - round_half_even y < 1"
    by (simp_all only: of_int_less_1_iff)
  then show ?thesis by simp
qed

lemma pow2_mod3: "(2::int) ^ a mod 3 = 1 \<or> (2::int) ^ a mod 3 = 2"
proof (induction a)
  case 0
  show ?case by simp
next
  case (Suc a)
  have "(2::int) ^ Suc a mod 3 = (2 * (2 ^ a mod 3)) mod 3"
    by (simp add: mod_mult_right_eq)
  then show ?case using Suc by auto
qed

lemma three_not_dvd_pow2: "\<not> (3::int) dvd 2 ^ a"
  using pow2_mod3[of a] by (auto simp: dvd_eq_mod_eq_0)

lemma fl_06: "fl (6/10) = 5404319552844595 / 9007199254740992"
  by code_simp

text \<open>Multiplying a multiple of five by the double 0.6 rounds to the exact integer.\<close>

lemma fl_three_fifths_exact:
  assumes "0 < j" "3 * j < 2 ^ 53"
  shows "fl (of_int (5 * j) * (5404319552844595 / 9007199254740992)) = of_int (3 * j)"
proof -
  define m where "m = 3 * j"
  have m0: "0 < m" using assms(1) by (simp add: m_def)
  define a where "a = bitlen m - 1"
  have a0: "0 \<le> a" using m0 unfolding a_def by (auto simp: bitlen_alt_def)
  have "bitlen m \<le> 53" using assms(2) by (simp add: bitlen_le_iff_power m_def)
  then have a52: "a \<le> 52" unfolding a_def by simp
  have mb: "2 ^ nat a \<le> m" "m < 2 ^ nat (a + 1)"
    using bitlen_bounds[OF m0] unfolding a_def by auto
  have "m \<noteq> 2 ^ nat a"
  proof
    assume "m = 2 ^ nat a"
    then have "(3::int) dvd 2 ^ nat a" unfolding m_def by (metis dvd_triv_left)
    then show False using three_not_dvd_pow2 by blast
  qed
  then have m1: "2 ^ nat a + 1 \<le> m" using mb(1) by simp
  have "m < 2 * 2 ^ nat a" using mb(2) a0 by (simp add: nat_add_distrib)
  then have ja: "j < 2 ^ nat a" unfolding m_def using assms(1) by linarith
  have j53: "j < 2 ^ 53" using assms by linarith
  define c :: rat where "c = 5404319552844595 / 9007199254740992"
  define x :: rat where "x = of_int (5 * j) * c"
  have c5: "5 * c = 3 - 1 / 2 ^ 53" unfolding c_def by simp
  have "x = of_int j * (5 * c)" unfolding x_def by simp
  also have "\<dots> = of_int j * 3 - of_int j / 2 ^ 53"
    unfolding c5 by (simp only: right_diff_distrib mult_1_right times_divide_eq_right)
  finally have x: "x = of_int m - of_int j / 2 ^ 53" unfolding m_def by simp
  have p2: "(2::rat) powi a = of_int (2 ^ nat a)" using a0 by (simp add: power_int_def)
  have jr: "(of_int j :: rat) / 2 ^ 53 \<le> 1" "(0::rat) < of_int j / 2 ^ 53"
    using j53 assms(1) by (simp_all add: field_simps)
  have "(of_int (2 ^ nat a + 1) :: rat) \<le> of_int m" using m1 by (simp only: of_int_le_iff)
  then have "(2::rat) powi a + 1 \<le> of_int m" unfolding p2 by simp
  then have lo: "2 powi a \<le> x" unfolding x using jr by linarith
  have "(of_int m :: rat) < of_int (2 ^ nat (a + 1))" using mb(2) by (simp only: of_int_less_iff)
  moreover have "(2::rat) powi (a + 1) = of_int (2 ^ nat (a + 1))"
    using a0 by (simp add: power_int_def)
  ultimately have "(of_int m :: rat) < 2 powi (a + 1)" by simp
  then have hi: "x < 2 powi (a + 1)" unfolding x using jr by linarith
  define S :: rat where "S = 2 powi (52 - a)"
  define P :: rat where "P = 2 powi a"
  define N where "N = m * 2 ^ nat (52 - a)"
  have S: "S = of_int (2 ^ nat (52 - a))"
    unfolding S_def using a52 by (simp add: power_int_def)
  have P0: "0 < P" unfolding P_def by simp
  have SP: "S * (2 * P) = 2 ^ 53"
    unfolding S_def P_def using pow2_add[of "52 - a" "a + 1"] pow2_add[of a 1] by simp
  have NS: "of_int N = of_int m * S" unfolding N_def S by simp
  have "S / 2 ^ 53 = 1 / (2 * P)"
    using SP P0 by (simp add: field_simps)
  then have "of_int j * (S / 2 ^ 53) = of_int j / (2 * P)" by simp
  moreover have "x * S = of_int m * S - of_int j * (S / 2 ^ 53)"
    unfolding x by (simp add: left_diff_distrib)
  ultimately have y: "x * S = of_int N - of_int j / (2 * P)" using NS by simp
  have "(of_int j :: rat) < of_int (2 ^ nat a)" using ja by (simp only: of_int_less_iff)
  then have "(of_int j :: rat) < P" unfolding P_def p2 .
  then have "(of_int j :: rat) / (2 * P) < 1 / 2"
    using P0 by (simp add: field_simps)
  moreover have "(0::rat) \<le> of_int j / (2 * P)" using assms(1) P0 by simp
  ultimately have "\<bar>x * S - of_int N\<bar> < 1/2" unfolding y by simp
  then have r: "round_half_even (x * 2 powi (52 - a)) = N"
    unfolding S_def by (rule rhe_near)
  have "fl x = of_int N * 2 powi (a - 52)" using fl_pos_form[OF lo hi] r by simp
  also have "\<dots> = of_int m * (S * 2 powi (a - 52))"
    unfolding NS by simp
  also have "S * (2::rat) powi (a - 52) = 1"
    unfolding S_def using pow2_add[of "52 - a" "a - 52"] by simp
  finally have "fl x = of_int m" by simp
  then show ?thesis unfolding x_def m_def c_def .
qed

lemma py_int_floor: "0 \<le> x \<Longrightarrow> py_int x = \<lfloor>x\<rfloor>"
  by (simp add: py_int_def)

lemma fill_floor:
  assumes "0 \<le> n" "n < 2 ^ 50"
  shows "py_int (fmul (float_of_int n) (fl (6/10))) = 6 * n div 10"
proof -
  define c :: rat where "c = 5404319552844595 / 9007199254740992"
  have c5: "5 * c = 3 - 1 / 2 ^ 53" unfolding c_def by simp
  have fn: "float_of_int n = of_int n" using assms by (intro float_of_int_exact) simp
  have e: "fmul (float_of_int n) (fl (6/10)) = fl (of_int n * c)"
    unfolding fmul_def fn fl_06 c_def ..
  show ?thesis
  proof (cases "5 dvd n")
    case True
    then obtain j where j: "n = 5 * j" by (elim dvdE)
    show ?thesis
    proof (cases "j = 0")
      case True
      then show ?thesis
        by (simp add: j fmul_def float_of_int_def fl_zero py_int_def)
    next
      case False
      then have j0: "0 < j" using assms(1) j by simp
      have "3 * j < 2 ^ 53" using assms(2) j by simp
      then have "fl (of_int n * c) = of_int (3 * j)"
        unfolding j c_def using j0 by (intro fl_three_fifths_exact)
      then have "py_int (fl (of_int n * c)) = 3 * j" by (simp only: py_int_of_int)
      then show ?thesis unfolding e by (simp add: j)
    qed
  next
    case False
    define k where "k = 3 * n div 5"
    define r where "r = 3 * n mod 5"
    have r: "1 \<le> r" "r \<le> 4" using False unfolding r_def by presburger+
    have kr: "3 * n = 5 * k + r" unfolding k_def r_def by simp
    have k0: "0 \<le> k" unfolding k_def using assms(1) by simp
    have k50: "k < 2 ^ 50" unfolding k_def using assms by simp
    define x where "x = of_int n * c"
    have "5 * x = of_int n * (5 * c)" unfolding x_def by simp
    also have "\<dots> = of_int (3 * n) - of_int n / 2 ^ 53"
      unfolding c5 by (simp add: algebra_simps)
    finally have x5: "5 * x = of_int (5 * k + r) - of_int n / 2 ^ 53" unfolding kr .
    have nr: "(0::rat) \<le> of_int n / 2 ^ 53" "(of_int n :: rat) / 2 ^ 53 \<le> 1"
      using assms by (simp_all add: field_simps)
    have rr: "(1::rat) \<le> of_int r" "(of_int r :: rat) \<le> 4" using r by simp_all
    have lo: "of_int k \<le> x" using x5 nr rr by simp
    have hi: "x \<le> of_int k + 7/8" using x5 nr rr by simp
    have "fl (of_int k) \<le> fl x" using lo by (rule fl_mono)
    moreover have "fl (of_int k) = (of_int k :: rat)" using k0 k50 by (intro fl_of_int) simp
    ultimately have A: "of_int k \<le> fl x" by simp
    have eq: "(of_int (8 * k + 7) :: rat) * 2 powi (- 3) = of_int k + 7/8"
      by (simp add: power_int_minus field_simps)
    have "fl (of_int (8 * k + 7) * 2 powi (- 3)) = of_int (8 * k + 7) * 2 powi (- 3)"
      using k0 k50 by (intro fl_exact) simp
    then have f78: "fl (of_int k + 7/8) = of_int k + 7/8" unfolding eq .
    have "fl x \<le> fl (of_int k + 7/8)" using hi by (rule fl_mono)
    then have B: "fl x \<le> of_int k + 7/8" unfolding f78 .
    have "\<lfloor>fl x\<rfloor> = k" using A B by linarith
    moreover have "0 \<le> fl x" using A k0 by (simp add: order_trans[OF _ A])
    ultimately have "py_int (fl x) = k" by (simp add: py_int_def)
    then show ?thesis unfolding e x_def k_def by simp
  qed
qed

lemma bar_w_le_width:
  assumes "0 \<le> width" "width < 2 ^ 53"
  shows "0 \<le> bar_w width \<and> bar_w width \<le> width"
proof -
  define s where "s = scale width"
  define t where "t = fmul 250 s"
  have s0: "0 \<le> s" unfolding s_def using assms(1) by (rule scale_nonneg)
  have "s = fl (of_int width / 1000)" unfolding s_def using assms by (intro scale_nearest) simp
  then have s1: "s \<le> of_int width / 1000 * (1 + 1 / 2 ^ 53)"
    using fl_upper[of "of_int width / 1000"] assms(1) by simp
  have t0: "0 \<le> t" unfolding t_def fmul_def using s0 by (intro fl_nonneg) simp
  have t1: "t \<le> 250 * s * (1 + 1 / 2 ^ 53)"
    unfolding t_def fmul_def using s0 by (intro fl_upper) simp
  have w0: "(0::rat) \<le> of_int width" using assms(1) by simp
  have "t \<le> of_int width" using s1 t1 w0 by simp
  moreover have "of_int (py_int t) \<le> t" using t0 by (simp add: py_int_def)
  ultimately have "(of_int (py_int t) :: rat) \<le> of_int width" by linarith
  then have "py_int t \<le> width" by (simp only: of_int_le_iff)
  moreover have "0 \<le> py_int t" using t0 by (rule py_int_nonneg)
  ultimately show ?thesis unfolding bar_w_def t_def s_def by simp
qed

lemma fill_w_floor:
  assumes "0 \<le> width" "width < 2 ^ 31"
  shows "fill_w width = 6 * bar_w width div 10"
proof -
  have "0 \<le> bar_w width \<and> bar_w width \<le> width"
    using assms by (intro bar_w_le_width) simp_all
  then have "0 \<le> bar_w width" "bar_w width < 2 ^ 50" using assms(2) by simp_all
  then show ?thesis unfolding fill_w_def by (rule fill_floor)
qed

lemma of_int_py_int_le: "0 \<le> t \<Longrightarrow> of_int (py_int t) \<le> t"
  by (simp add: py_int_def)

lemma float_py_int_le:
  assumes "0 \<le> x"
  shows "float_of_int (py_int (fl x)) \<le> fl x"
proof -
  have "of_int (py_int (fl x)) \<le> fl x" using assms by (intro of_int_py_int_le fl_nonneg)
  then have "fl (of_int (py_int (fl x))) \<le> fl (fl x)" by (rule fl_mono)
  then show ?thesis by (simp add: float_of_int_def fl_idem)
qed

lemma radius_strict:
  assumes s: "0 < s"
    and g: "0 \<le> g" "g \<le> 90 * s * (1 + 1 / 2 ^ 53)"
    and a: "0 \<le> a" "a \<le> 60 * s"
    and b: "a + s \<le> b"
  shows "fl (g + fl a) < fl (g + fl b)"
proof -
  define u :: rat where "u = 1 / 2 ^ 53"
  have u: "0 < u" "u < 1 / 1000000" unfolding u_def by simp_all
  have b0: "0 \<le> b" using a b s by linarith
  have pa: "fl a \<le> a * (1 + u)" "0 \<le> fl a"
    unfolding u_def by (rule fl_upper[OF a(1)], rule fl_nonneg[OF a(1)])
  have pb: "b * (1 - u) \<le> fl b" "0 \<le> fl b"
    unfolding u_def by (rule fl_lower[OF b0], rule fl_nonneg[OF b0])
  have ga: "0 \<le> g + fl a" using g(1) pa(2) by simp
  have gb: "0 \<le> g + fl b" using g(1) pb(2) by simp
  have E: "fl (g + fl a) \<le> (g + fl a) * (1 + u)"
    unfolding u_def by (rule fl_upper[OF ga])
  have E': "(g + fl b) * (1 - u) \<le> fl (g + fl b)"
    unfolding u_def by (rule fl_lower[OF gb])
  have "(g + fl a) * (1 + u) \<le> (g + a * (1 + u)) * (1 + u)"
    using pa(1) u by (intro mult_right_mono) auto
  then have E1: "fl (g + fl a) \<le> g + g * u + a * ((1 + u) * (1 + u))"
    using E by (simp add: algebra_simps)
  have "(g + b * (1 - u)) * (1 - u) \<le> (g + fl b) * (1 - u)"
    using pb(1) u by (intro mult_right_mono) auto
  then have E2: "g - g * u + b * ((1 - u) * (1 - u)) \<le> fl (g + fl b)"
    using E' by (simp add: algebra_simps)
  have k1: "(1 + u) * (1 + u) \<le> 1 + 3 * u"
  proof -
    have "u * u \<le> u * 1" using u by (intro mult_left_mono) auto
    then show ?thesis by (simp add: algebra_simps)
  qed
  have k2: "1 - 2 * u \<le> (1 - u) * (1 - u)"
  proof -
    have "0 \<le> u * u" using u by simp
    then show ?thesis by (simp add: algebra_simps)
  qed
  have A: "a * ((1 + u) * (1 + u)) \<le> a * (1 + 3 * u)"
    using k1 a(1) by (rule mult_left_mono)
  have B: "b * (1 - 2 * u) \<le> b * ((1 - u) * (1 - u))"
    using k2 b0 by (rule mult_left_mono)
  have gu: "g * u \<le> 90 * s * (1 + u) * u"
    using g(2) u unfolding u_def[symmetric] by (intro mult_right_mono) auto
  have su: "s * u \<le> s * (1 / 1000000)" using u s by (intro mult_left_mono) auto
  have suu: "s * u * u \<le> s * u * 1" using u s by (intro mult_left_mono) auto
  have au: "a * u \<le> 60 * s * u" using a(2) u by (intro mult_right_mono) auto
  have bu: "b * u = a * u + (b - a) * u" by (simp add: algebra_simps)
  have "g + g * u + a * (1 + 3 * u) < g - g * u + b * (1 - 2 * u)"
  proof -
    have "2 * (g * u) + 5 * (a * u) \<le> 2 * (90 * s * (1 + u) * u) + 5 * (60 * s * u)"
      using gu au by linarith
    also have "\<dots> = 480 * (s * u) + 180 * (s * u * u)" by (simp add: algebra_simps)
    also have "\<dots> \<le> 660 * (s * u)" using suu by linarith
    also have "\<dots> < s / 2" using su s by linarith
    finally have m: "2 * (g * u) + 5 * (a * u) < s / 2" .
    have "(b - a) * (1 - 2 * u) \<ge> s * (1 - 2 * u)"
      using b u by (intro mult_right_mono) auto
    then have "(b - a) * (1 - 2 * u) \<ge> s - 2 * (s * u)" by (simp add: algebra_simps)
    then have n: "(b - a) * (1 - 2 * u) > s / 2" using su s by linarith
    have "b * (1 - 2 * u) - a * (1 + 3 * u) = (b - a) * (1 - 2 * u) - 5 * (a * u)"
      by (simp add: algebra_simps)
    then show ?thesis using m n by linarith
  qed
  then show ?thesis using E1 E2 A B by linarith
qed

lemma glow_radius_strict:
  assumes w: "0 < width" and c: "0 \<le> c" "c \<le> 90" and m: "m = 1 \<or> m = 3"
    and r: "1 \<le> r" "r < r'" "r' \<le> 20"
  shows "fadd (float_of_int (py_int (fmul c (scale width)))) (fmul (float_of_int (r * m)) (scale width))
       < fadd (float_of_int (py_int (fmul c (scale width)))) (fmul (float_of_int (r' * m)) (scale width))"
proof -
  define s where "s = scale width"
  define g where "g = float_of_int (py_int (fmul c s))"
  have s0: "0 < s" unfolding s_def using w by (rule scale_pos)
  have cs: "0 \<le> c * s" using c(1) s0 by simp
  have g0: "0 \<le> g"
    unfolding g_def float_of_int_def fmul_def
    by (intro fl_nonneg) (simp add: py_int_nonneg fl_nonneg cs)
  have "g \<le> fl (c * s)" unfolding g_def fmul_def by (rule float_py_int_le[OF cs])
  also have "\<dots> \<le> c * s * (1 + 1 / 2 ^ 53)" by (rule fl_upper[OF cs])
  also have "\<dots> \<le> 90 * s * (1 + 1 / 2 ^ 53)"
    using c(2) s0 by (intro mult_right_mono) auto
  finally have g1: "g \<le> 90 * s * (1 + 1 / 2 ^ 53)" .
  have sm: "\<bar>r * m\<bar> < 2 ^ 53" "\<bar>r' * m\<bar> < 2 ^ 53" using r m by auto
  have fr: "float_of_int (r * m) = of_int (r * m)" "float_of_int (r' * m) = of_int (r' * m)"
    by (rule float_of_int_exact[OF sm(1)], rule float_of_int_exact[OF sm(2)])
  have m0: "(1::rat) \<le> of_int m" "(of_int m :: rat) \<le> 3" using m by auto
  have rr: "(1::rat) \<le> of_int r" "(of_int r :: rat) + 1 \<le> of_int r'" "(of_int r' :: rat) \<le> 20"
    using r by auto
  define a where "a = of_int (r * m) * s"
  define b where "b = of_int (r' * m) * s"
  have a0: "0 \<le> a" unfolding a_def using r(1) m s0 by auto
  have "(of_int (r * m) :: rat) \<le> 20 * 3"
  proof -
    have "(of_int r :: rat) * of_int m \<le> 20 * 3"
      using rr m0 by (intro mult_mono) auto
    then show ?thesis by simp
  qed
  then have a1: "a \<le> 60 * s" unfolding a_def using s0 by (simp add: mult_right_mono)
  have "(of_int (r * m) :: rat) + 1 \<le> of_int (r' * m)"
  proof -
    have "(of_int r + 1) * (of_int m :: rat) \<le> of_int r' * of_int m"
      using rr(2) m0 by (intro mult_right_mono) auto
    then show ?thesis using m0 by (simp add: algebra_simps)
  qed
  then have "(of_int (r * m) + 1) * s \<le> of_int (r' * m) * s"
    using s0 by (intro mult_right_mono) auto
  then have b1: "a + s \<le> b" unfolding a_def b_def by (simp add: algebra_simps)
  have "fl (g + fl a) < fl (g + fl b)"
    using s0 g0 g1 a0 a1 b1 by (rule radius_strict)
  then show ?thesis
    unfolding fadd_def fmul_def fr g_def s_def a_def b_def .
qed

lemma glow_ex_strict:
  assumes "0 < width" "1 \<le> r" "r < r'" "r' \<le> 20"
  shows "glow_ex width r < glow_ex width r'"
  unfolding glow_ex_def glow_rx_def
  using assms by (intro glow_radius_strict) auto

lemma glow_ey_strict:
  assumes "0 < width" "1 \<le> r" "r < r'" "r' \<le> 20"
  shows "glow_ey width r < glow_ey width r'"
  unfolding glow_ey_def glow_ry_def
  using assms by (intro glow_radius_strict) auto

lemma translate_back:
  "\<bar>fl (fl (c - a) + a) - c\<bar> \<le> (\<bar>c\<bar> + \<bar>a\<bar>) / 2 ^ 51"
proof -
  define u :: rat where "u = 1 / 2 ^ 53"
  have u: "0 < u" "u \<le> 1" unfolding u_def by simp_all
  define ox where "ox = fl (c - a)"
  define d where "d = \<bar>c - a\<bar>"
  have d0: "0 \<le> d" "d \<le> \<bar>c\<bar> + \<bar>a\<bar>" unfolding d_def by simp_all
  have e1: "\<bar>ox - (c - a)\<bar> \<le> d * u"
    unfolding ox_def d_def u_def using fl_err[of "c - a"] by simp
  have e2: "\<bar>fl (ox + a) - (ox + a)\<bar> \<le> \<bar>ox + a\<bar> * u"
    unfolding u_def using fl_err[of "ox + a"] by simp
  have "\<bar>ox + a\<bar> \<le> \<bar>c\<bar> + d * u" using e1 by linarith
  then have "\<bar>ox + a\<bar> * u \<le> (\<bar>c\<bar> + d * u) * u"
    using u by (intro mult_right_mono) auto
  then have e3: "\<bar>fl (ox + a) - (ox + a)\<bar> \<le> \<bar>c\<bar> * u + d * u * u"
    using e2 by (simp add: algebra_simps)
  have "d * u * u \<le> d * u * 1" using d0 u by (intro mult_left_mono) auto
  then have "\<bar>fl (ox + a) - c\<bar> \<le> \<bar>c\<bar> * u + 2 * (d * u)" using e1 e3 by linarith
  also have "\<dots> \<le> (\<bar>c\<bar> + \<bar>a\<bar>) * u + 2 * ((\<bar>c\<bar> + \<bar>a\<bar>) * u)"
  proof -
    have "d * u \<le> (\<bar>c\<bar> + \<bar>a\<bar>) * u" using d0 u by (intro mult_right_mono) auto
    moreover have "\<bar>c\<bar> * u \<le> (\<bar>c\<bar> + \<bar>a\<bar>) * u" using u by (intro mult_right_mono) auto
    ultimately show ?thesis by linarith
  qed
  also have "\<dots> \<le> (\<bar>c\<bar> + \<bar>a\<bar>) / 2 ^ 51"
  proof -
    have "3 * u \<le> 1 / 2 ^ 51" unfolding u_def by simp
    then have "(\<bar>c\<bar> + \<bar>a\<bar>) * (3 * u) \<le> (\<bar>c\<bar> + \<bar>a\<bar>) * (1 / 2 ^ 51)"
      by (intro mult_left_mono) auto
    then show ?thesis by (simp add: algebra_simps)
  qed
  finally show ?thesis unfolding ox_def .
qed

lemma float_52: "float_of_int 52 = 52" using float_of_int_exact[of 52] by simp
lemma float_50: "float_of_int 50 = 50" using float_of_int_exact[of 50] by simp

lemma centre_250:
  "scaled_point (icon_ox (float_of_int (icon_cx 250)) (icon_scale (icon_size 250)))
                (icon_oy (float_of_int (icon_cy 175)) (icon_scale (icon_size 250)))
                (icon_scale (icon_size 250)) (52, 50) = (125, 70)"
  by code_simp

lemma centre_500:
  "scaled_point (icon_ox (float_of_int (icon_cx 500)) (icon_scale (icon_size 500)))
                (icon_oy (float_of_int (icon_cy 350)) (icon_scale (icon_size 500)))
                (icon_scale (icon_size 500)) (52, 50) = (250, 140)"
  by code_simp

lemma centre_1000:
  "scaled_point (icon_ox (float_of_int (icon_cx 1000)) (icon_scale (icon_size 1000)))
                (icon_oy (float_of_int (icon_cy 700)) (icon_scale (icon_size 1000)))
                (icon_scale (icon_size 1000)) (52, 50) = (500, 280)"
  by code_simp

section \<open>The claims\<close>








lemma length_all_pts: "length (all_pts points) = 161"
  by (simp add: all_pts_def steps_def)



subsection \<open>Rounding error of a Bezier sample\<close>

















lemma moderate_int:
  assumes "1 \<le> \<bar>n\<bar>" "\<bar>n\<bar> < 2 ^ 53"
  shows "moderate (of_int n)"
proof -
  have d: "is_double (of_int n)" using fl_of_int[OF assms(2)] by (simp add: is_double_def)
  have "\<bar>of_int n :: rat\<bar> = of_int \<bar>n\<bar>" by simp
  have "(2::rat) powi (- 300) \<le> 2 powi 0" by (rule power_int_increasing) simp_all
  then have lo: "(2::rat) powi (- 300) \<le> 1" by simp
  have "(1::rat) \<le> of_int \<bar>n\<bar>" using assms(1) by (simp only: of_int_1_le_iff)
  then have l: "(2::rat) powi (- 300) \<le> \<bar>of_int n\<bar>" using lo by simp
  have "(of_int \<bar>n\<bar> :: rat) \<le> 2 ^ 53" using assms(2)
    by (metis less_imp_le of_int_le_iff of_int_numeral of_int_power)
  moreover have "(2::rat) ^ 53 \<le> 2 powi 300" by (simp add: power_int_def)
  ultimately have h: "\<bar>of_int n :: rat\<bar> \<le> 2 powi 300" by simp
  show ?thesis unfolding moderate_def using d l h by blast
qed










text \<open>
  Claim C8.  The sampler is deterministic: the sampled points depend on the control
  points alone, and two calls with the same control points draw lines through the same
  coordinate sequence whatever the handle, colour and stroke width.
\<close>

theorem draw_breeze_curve_deterministic:
  "map_sum id (map line_coords) (draw_breeze_curve draw points width color)
     = map_sum id (map line_coords) (draw_breeze_curve draw' points width' color')
   \<and> (length points \<ge> 7 \<longrightarrow>
        (\<exists>ops. draw_breeze_curve draw points width color = Inr ops
             \<and> map line_coords ops =
                 map (\<lambda>i. [all_pts points ! i, all_pts points ! (i + 1)]) [0..<160]))"
  by (simp add: draw_breeze_curve_def Let_def length_all_pts comp_def)

theorem draw_breeze_curve_deterministic_witness:
  "\<exists>ops. draw_breeze_curve Img [(18, 30), (30, 18), (44, 42), (56, 30), (68, 18), (80, 34), (90, 26)]
            5 ICON_WHITE = Inr ops
       \<and> map line_coords ops =
           map (\<lambda>i. [all_pts [(18, 30), (30, 18), (44, 42), (56, 30), (68, 18), (80, 34), (90, 26)] ! i,
                      all_pts [(18, 30), (30, 18), (44, 42), (56, 30), (68, 18), (80, 34), (90, 26)] ! (i + 1)])
               [0..<160]"
  using draw_breeze_curve_deterministic
    [of Img "[(18, 30), (30, 18), (44, 42), (56, 30), (68, 18), (80, 34), (90, 26)]" 5 ICON_WHITE]
  by simp

lemma glow_loop_eq:
  "glow_loop = [20, 19, 18, 17, 16, 15, 14, 13, 12, 11, 10, 9, 8, 7, 6, 5, 4, 3, 2, 1]"
  by code_simp




lemma fl_32: "fl (32/10) = 3602879701896397 / 1125899906842624"
  by code_simp

lemma icon_lw_250: "icon_lw 250 = [2, 2, 1]" by code_simp
lemma icon_lw_500: "icon_lw 500 = [2, 2, 1]" by code_simp
lemma icon_lw_1000: "icon_lw 1000 = [5, 4, 3]" by code_simp

lemma icon_lw_top_bottom: "icon_lw width ! 2 < icon_lw width ! 0"
proof (cases "0 \<le> width")
  case False
  then have "py_int (fmul (fl (32/10)) (scale width)) \<le> 0"
    by (intro scaled_nonpos fl_32_nonneg) simp
  then show ?thesis by (simp add: icon_lw_def)
next
  case True
  define s where "s = scale width"
  have s0: "0 \<le> s" unfolding s_def using True by (rule scale_nonneg)
  define a where "a = fmul 5 s"
  define b where "b = fmul (fl (32/10)) s"
  have a: "5 * s * (1 - 1 / 2 ^ 53) \<le> a"
    unfolding a_def fmul_def using s0 by (intro fl_lower) simp
  have b: "b \<le> 3602879701896397 / 1125899906842624 * s * (1 + 1 / 2 ^ 53)"
    unfolding b_def fmul_def fl_32 using s0 by (intro fl_upper) simp
  have b0: "0 \<le> b" unfolding b_def fmul_def fl_32 using s0 by (intro fl_nonneg) simp
  have a0: "0 \<le> a" unfolding a_def fmul_def using s0 by (intro fl_nonneg) simp
  show ?thesis
  proof (cases "b < 2")
    case True
    then have "\<lfloor>b\<rfloor> < 2" by linarith
    then show ?thesis using b0 unfolding icon_lw_def s_def[symmetric] b_def[symmetric]
      by (simp add: py_int_def)
  next
    case False
    then have "b + 1 \<le> a" using a b s0 by simp
    then have "\<lfloor>b\<rfloor> + 1 \<le> \<lfloor>a\<rfloor>" by linarith
    moreover have "2 \<le> \<lfloor>b\<rfloor>" using False by linarith
    ultimately show ?thesis
      using a0 b0 unfolding icon_lw_def s_def[symmetric] b_def[symmetric] a_def[symmetric]
      by (simp add: py_int_def)
  qed
qed

lemma icon_lw_top_middle: "icon_lw width ! 1 \<le> icon_lw width ! 0"
proof (cases "0 \<le> width")
  case False
  then have "py_int (fmul 4 (scale width)) \<le> 0" "py_int (fmul 5 (scale width)) \<le> 0"
    by (auto intro!: scaled_nonpos)
  then show ?thesis by (simp add: icon_lw_def)
next
  case True
  have "py_int (fmul 4 (scale width)) \<le> py_int (fmul 5 (scale width))"
    unfolding fmul_def using scale_nonneg[OF True]
    by (intro py_int_mono fl_mono mult_right_mono) auto
  then show ?thesis by (simp add: icon_lw_def)
qed

lemma icon_lw_middle_bottom: "icon_lw width ! 2 \<le> icon_lw width ! 1"
proof (cases "0 \<le> width")
  case False
  then have "py_int (fmul (fl (32/10)) (scale width)) \<le> 0"
    by (intro scaled_nonpos fl_32_nonneg) simp
  then show ?thesis by (simp add: icon_lw_def)
next
  case True
  have "py_int (fmul (fl (32/10)) (scale width)) \<le> py_int (fmul 4 (scale width))"
    unfolding fmul_def fl_32 using scale_nonneg[OF True]
    by (intro py_int_mono fl_mono mult_right_mono) auto
  then show ?thesis by (simp add: icon_lw_def le_max_iff_disj) linarith
qed

lemma main_icon_calls:
  "main_icon width height =
     collect
       (map (\<lambda>idx. draw_breeze_curve Img_composited
                     (map (scaled_point
                             (icon_ox (float_of_int (icon_cx width)) (icon_scale (icon_size width)))
                             (icon_oy (float_of_int (icon_cy height)) (icon_scale (icon_size width)))
                             (icon_scale (icon_size width)))
                          (curves ! idx))
                     (icon_lw width ! idx) ICON_WHITE)
            [0, 1, 2])"
  by (simp add: main_icon_def draw_icon_def Let_def curves_def icon_lw_def upt_rec)

text \<open>
  Claim C3, as stated, fails: at the configured width 250 the three stroke widths are
  2, 2 and 1, so the top and the middle curve are drawn with the same width.
\<close>

theorem icon_stroke_widths_counterexample:
  "icon_lw 250 = [2, 2, 1] \<and> \<not> distinct (icon_lw 250)"
  by (simp add: icon_lw_250)

text \<open>
  Claim C3, amended.  The three icon curves are drawn with the stroke widths
  \<open>max 2 (int (5 * scale))\<close>, \<open>max 2 (int (4 * scale))\<close> and \<open>max 1 (int (3.2 * scale))\<close>,
  one per curve in the order top, middle, bottom.  For every width they never increase
  from top to bottom and the top curve is strictly wider than the bottom one.  They are
  pairwise distinct at width 1000 (5, 4, 3); at widths 500 and 250 they are 2, 2, 1.
\<close>

theorem icon_stroke_widths:
  "icon_lw width =
     [max 2 (py_int (fmul 5 (scale width))),
      max 2 (py_int (fmul 4 (scale width))),
      max 1 (py_int (fmul (fl (32/10)) (scale width)))]
   \<and> main_icon width height =
       collect
         (map (\<lambda>idx. draw_breeze_curve Img_composited
                       (map (scaled_point
                               (icon_ox (float_of_int (icon_cx width)) (icon_scale (icon_size width)))
                               (icon_oy (float_of_int (icon_cy height)) (icon_scale (icon_size width)))
                               (icon_scale (icon_size width)))
                            (curves ! idx))
                       (icon_lw width ! idx) ICON_WHITE)
              [0, 1, 2])
   \<and> icon_lw width ! 1 \<le> icon_lw width ! 0
   \<and> icon_lw width ! 2 \<le> icon_lw width ! 1
   \<and> icon_lw width ! 2 < icon_lw width ! 0
   \<and> icon_lw 1000 = [5, 4, 3] \<and> distinct (icon_lw 1000)
   \<and> icon_lw 500 = [2, 2, 1]
   \<and> icon_lw 250 = [2, 2, 1]"
proof -
  have d: "distinct (icon_lw 1000)" by (simp add: icon_lw_1000)
  have e: "icon_lw width =
     [max 2 (py_int (fmul 5 (scale width))),
      max 2 (py_int (fmul 4 (scale width))),
      max 1 (py_int (fmul (fl (32/10)) (scale width)))]"
    by (rule icon_lw_def)
  show ?thesis
    by (intro conjI)
       (rule e main_icon_calls icon_lw_top_middle icon_lw_middle_bottom icon_lw_top_bottom
             icon_lw_1000 d icon_lw_500 icon_lw_250)+
qed

text \<open>
  Claim C9.  For positive width and height the grid stage never raises.  The spacing
  \<open>int (70 * scale)\<close> is 0 exactly for the widths below 15; \<^verbatim>\<open>range\<close> with that step
  would raise \<^verbatim>\<open>ValueError\<close>, but the guard skips the stage, which then draws nothing.
\<close>

theorem grid_stage_never_raises:
  assumes "0 < width" and "0 < height"
  shows "(grid_spacing width = 0 \<longleftrightarrow> width < 15)
       \<and> (\<exists>ops. grid_lines width height = Inr ops)
       \<and> (width < 15 \<longrightarrow> grid_lines width height = Inr [])
       \<and> py_range 0 width 0 = Inl ValueError"
proof -
  have "width < 15 \<longrightarrow> grid_lines width height = Inr []"
    using grid_spacing_zero_iff[OF assms(1)] by (auto simp: grid_lines_def Let_def)
  then show ?thesis
    using grid_spacing_zero_iff[OF assms(1)] grid_lines_returns[of width height]
    by (simp add: py_range_def)
qed

theorem grid_stage_never_raises_witness:
  "grid_spacing 10 = 0 \<and> grid_lines 10 7 = Inr [] \<and> py_range 0 10 0 = Inl ValueError"
  using grid_stage_never_raises[of 10 7] by simp

text \<open>
  Claim C4.  For a positive width the scale factor is \<^verbatim>\<open>width / 1000\<close> as Python
  computes it: the double nearest to the quotient, and the quotient itself whenever that
  is a double (as for the widths 250, 500 and 1000).  The dot radius and the bar height
  are integers of at least 2, and every measurement \<open>int (c * scale)\<close> with \<open>c \<ge> 0\<close>, so
  every scaled line width, offset and font size of the pipeline, is a non-negative
  integer, above its stated minimum where it has one.
\<close>

theorem scale_and_measurements:
  assumes "0 < width" and "width < 2 ^ 53"
  shows "scale width = py_truediv width 1000
       \<and> scale width = fl (of_int width / 1000)
       \<and> (is_double (of_int width / 1000) \<longrightarrow> scale width = of_int width / 1000)
       \<and> scale 250 = 1 / 4 \<and> scale 500 = 1 / 2 \<and> scale 1000 = 1
       \<and> 0 < scale width
       \<and> 2 \<le> dot_r width \<and> 2 \<le> bar_h width
       \<and> (\<forall>c. 0 \<le> c \<longrightarrow> 0 \<le> py_int (fmul c (scale width)))
       \<and> 0 \<le> grid_spacing width \<and> 0 \<le> dot_spacing width
       \<and> 1 \<le> wave_width width
       \<and> 0 \<le> glow_rx width \<and> 0 \<le> glow_ry width
       \<and> (\<forall>lw \<in> set (icon_lw width). 1 \<le> lw)
       \<and> 10 \<le> font_size width \<and> 8 \<le> small_font_size width
       \<and> 0 \<le> bar_w width \<and> 0 \<le> fill_w width"
proof -
  have w: "0 \<le> width" "\<bar>width\<bar> < 2 ^ 53" using assms by auto
  have a: "scale width = fl (of_int width / 1000)" by (rule scale_nearest[OF w(2)])
  have b: "scale width = py_truediv width 1000" using a by (simp add: py_truediv_def)
  have c: "is_double (of_int width / 1000) \<longrightarrow> scale width = of_int width / 1000"
    using a by (simp add: is_double_def)
  have d: "0 < scale width" by (rule scale_pos[OF assms(1)])
  have e: "2 \<le> dot_r width" "2 \<le> bar_h width" "1 \<le> wave_width width"
    "10 \<le> font_size width" "8 \<le> small_font_size width"
    by (simp_all add: dot_r_def bar_h_def wave_width_def font_size_def small_font_size_def)
  have f: "\<forall>c. 0 \<le> c \<longrightarrow> 0 \<le> py_int (fmul c (scale width))"
    using scaled_nonneg[OF _ w(1)] by blast
  have g: "0 \<le> grid_spacing width" "0 \<le> dot_spacing width" "0 \<le> glow_rx width"
    "0 \<le> glow_ry width" "0 \<le> bar_w width"
    unfolding grid_spacing_def dot_spacing_def glow_rx_def glow_ry_def bar_w_def
    using f by simp_all
  have h: "\<forall>lw \<in> set (icon_lw width). 1 \<le> lw"
    by (simp add: icon_lw_def le_max_iff_disj)
  have i: "0 \<le> fill_w width" by (rule fill_w_nonneg[OF w(1)])
  show ?thesis
    by (intro conjI)
       (rule a b c d e f g h i scale_250 scale_500 scale_1000)+
qed

theorem scale_and_measurements_witness:
  "(0::int) < 250 \<and> (250::int) < 2 ^ 53
   \<and> scale 250 = py_truediv 250 1000 \<and> 0 < scale 250
   \<and> 2 \<le> dot_r 250 \<and> 2 \<le> bar_h 250
   \<and> 0 \<le> py_int (fmul 55 (scale 250))"
proof -
  have p: "(0::int) < 250" "(250::int) < 2 ^ 53" by simp_all
  note t = scale_and_measurements[OF p]
  note c1 = t[THEN conjunct1]
  note r6 = t[THEN conjunct2, THEN conjunct2, THEN conjunct2, THEN conjunct2, THEN conjunct2,
              THEN conjunct2]
  note c7 = r6[THEN conjunct1]
  note c8 = r6[THEN conjunct2, THEN conjunct1]
  note c9 = r6[THEN conjunct2, THEN conjunct2, THEN conjunct1]
  note c10 = r6[THEN conjunct2, THEN conjunct2, THEN conjunct2, THEN conjunct1]
  have c55: "0 \<le> py_int (fmul 55 (scale 250))"
    by (rule c10[rule_format]) simp
  show ?thesis
    by (intro conjI) (rule p c1 c7 c8 c9 c55)+
qed

text \<open>
  Claim C2.  For every canvas width (a non-negative int below \<open>2^31\<close>, the largest side
  Pillow accepts), the width of the green fill is the integer floor of 0.6 times the
  track width \<open>bar_w = int (250 * scale)\<close>, although it is computed in doubles as
  \<open>int (bar_w * 0.6)\<close>.  The fill rectangle starts at the track's left edge \<open>bar_x\<close> and
  its right edge \<open>bar_x + fill_w\<close> does not pass the track's right edge \<open>bar_x + bar_w\<close>.
\<close>

theorem progress_bar_fill:
  assumes "0 \<le> width" and "width < 2 ^ 31"
  shows "bar_w width = py_int (fmul 250 (scale width))
       \<and> fill_w width = \<lfloor>(6 / 10) * (of_int (bar_w width) :: rat)\<rfloor>
       \<and> fill_w width = 6 * bar_w width div 10
       \<and> 0 \<le> fill_w width \<and> fill_w width \<le> bar_w width
       \<and> bar_x width + fill_w width \<le> bar_x width + bar_w width
       \<and> progress_bar width height =
           [Draw_rounded_rectangle Img_composited
              [bar_x width, bar_y height, bar_x width + bar_w width, bar_y height + bar_h width]
              (bar_h width div 2) (RGB 40 60 75),
            Draw_rounded_rectangle Img_composited
              [bar_x width, bar_y height, bar_x width + fill_w width, bar_y height + bar_h width]
              (bar_h width div 2) GREEN]"
proof -
  have b: "0 \<le> bar_w width" using assms by (intro bar_w_le_width[THEN conjunct1]) simp_all
  have f: "fill_w width = 6 * bar_w width div 10" using assms by (rule fill_w_floor)
  have "(6 / 10) * (of_int (bar_w width) :: rat) = of_int (6 * bar_w width) / of_int 10"
    by simp
  then have g: "\<lfloor>(6 / 10) * (of_int (bar_w width) :: rat)\<rfloor> = 6 * bar_w width div 10"
    by (simp only: floor_divide_of_int_eq)
  have h: "0 \<le> fill_w width" "fill_w width \<le> bar_w width" using b unfolding f by simp_all
  show ?thesis
    using f g h by (simp add: bar_w_def[symmetric] progress_bar_def)
qed

theorem progress_bar_fill_witness:
  "bar_w 250 = py_int (fmul 250 (scale 250))
   \<and> fill_w 250 = \<lfloor>(6 / 10) * (of_int (bar_w 250) :: rat)\<rfloor>
   \<and> fill_w 250 = 6 * bar_w 250 div 10
   \<and> 0 \<le> fill_w 250 \<and> fill_w 250 \<le> bar_w 250
   \<and> bar_x 250 + fill_w 250 \<le> bar_x 250 + bar_w 250
   \<and> progress_bar 250 175 =
       [Draw_rounded_rectangle Img_composited
          [bar_x 250, bar_y 175, bar_x 250 + bar_w 250, bar_y 175 + bar_h 250]
          (bar_h 250 div 2) (RGB 40 60 75),
        Draw_rounded_rectangle Img_composited
          [bar_x 250, bar_y 175, bar_x 250 + fill_w 250, bar_y 175 + bar_h 250]
          (bar_h 250 div 2) GREEN]"
  by (rule progress_bar_fill) simp_all

subsection \<open>The glow radii\<close>

lemma fl_dyadic: "\<bar>m\<bar> < 2 ^ 53 \<Longrightarrow> fl (of_int m / 2 ^ k) = of_int m / 2 ^ k"
  using fl_exact[of m "- int k"] by (simp add: power_int_minus field_simps)

lemma fl_le_pow2:
  assumes "x \<le> 2 ^ k" "k \<le> 52"
  shows "fl x \<le> 2 ^ k"
proof -
  have "(2::int) ^ k \<le> 2 ^ 52" using assms(2) by (intro power_increasing) simp_all
  then have "\<bar>(2::int) ^ k\<bar> < 2 ^ 53" by simp
  then have "fl (of_int (2 ^ k)) = of_int (2 ^ k)" by (rule fl_of_int)
  then have "fl (2 ^ k) = 2 ^ k" by simp
  then show ?thesis using fl_mono[OF assms(1)] by simp
qed

lemma scale_le:
  assumes "0 \<le> width" "width < 2 ^ 31"
  shows "scale width \<le> 2 ^ 31"
proof -
  have w: "\<bar>width\<bar> < 2 ^ 53" using assms by simp
  have "(of_int width :: rat) \<le> of_int (2 ^ 31)" using assms(2) by (simp only: of_int_le_iff)
  then have a: "(of_int width :: rat) \<le> 2 ^ 31" by simp
  have "(of_int width :: rat) / 1000 \<le> of_int width" using assms(1) by simp
  then have "(of_int width :: rat) / 1000 \<le> 2 ^ 31" using a by linarith
  then have "fl (of_int width / 1000) \<le> 2 ^ 31" by (rule fl_le_pow2) simp
  then show ?thesis by (simp add: scale_def fdiv_def float_of_int_exact[OF w])
qed

lemma scaled_exact:
  assumes c: "0 \<le> c" "c \<le> 128" and w: "0 \<le> width" "width < 2 ^ 31"
  shows "float_of_int (py_int (fmul c (scale width))) = of_int (py_int (fmul c (scale width)))"
proof -
  have s: "0 \<le> scale width" "scale width \<le> 2 ^ 31"
    by (rule scale_nonneg[OF w(1)], rule scale_le[OF w])
  have "c * scale width \<le> 128 * 2 ^ 31" using c s by (intro mult_mono) auto
  then have "c * scale width \<le> 2 ^ 38" by simp
  then have u: "fmul c (scale width) \<le> 2 ^ 38" unfolding fmul_def by (rule fl_le_pow2) simp
  have l: "0 \<le> fmul c (scale width)" unfolding fmul_def using c s by (intro fl_nonneg) simp
  have "(of_int (py_int (fmul c (scale width))) :: rat) \<le> of_int (2 ^ 38)"
    using of_int_py_int_le[OF l] u by simp
  then have "py_int (fmul c (scale width)) \<le> 2 ^ 38" by (simp only: of_int_le_iff)
  moreover have "0 \<le> py_int (fmul c (scale width))" using l by (rule py_int_nonneg)
  ultimately have "\<bar>py_int (fmul c (scale width))\<bar> < 2 ^ 53" by simp
  then show ?thesis by (rule float_of_int_exact)
qed

lemma glow_cy_exact:
  assumes w: "0 \<le> width" "width < 2 ^ 31" and h: "0 \<le> height" "height < 2 ^ 31"
  shows "float_of_int (py_int (fadd (fmul (float_of_int height) (fl (46/100)))
                                    (fmul 45 (scale width))))
       = of_int (py_int (fadd (fmul (float_of_int height) (fl (46/100)))
                                    (fmul 45 (scale width))))"
proof -
  define x where "x = fadd (fmul (float_of_int height) (fl (46/100))) (fmul 45 (scale width))"
  have s: "0 \<le> scale width" "scale width \<le> 2 ^ 31"
    by (rule scale_nonneg[OF w(1)], rule scale_le[OF w])
  have hh: "\<bar>height\<bar> < 2 ^ 53" using h by simp
  have fh: "float_of_int height = of_int height" by (rule float_of_int_exact[OF hh])
  have "(of_int height :: rat) \<le> of_int (2 ^ 31)" using h(2) by (simp only: of_int_le_iff)
  then have h1: "(of_int height :: rat) \<le> 2 ^ 31" by simp
  have h0: "(0::rat) \<le> of_int height" using h(1) by simp
  have q: "0 \<le> fl (46/100)" "fl (46/100) \<le> 1"
    using fl_nonneg[of "46/100"] fl_mono[of "46/100" 1] fl_of_int[of 1] by simp_all
  have "of_int height * fl (46/100) \<le> 2 ^ 31 * 1" using h0 h1 q by (intro mult_mono) auto
  then have a1: "fmul (float_of_int height) (fl (46/100)) \<le> 2 ^ 31"
    unfolding fmul_def fh by (intro fl_le_pow2) simp_all
  have a0: "0 \<le> fmul (float_of_int height) (fl (46/100))"
    unfolding fmul_def fh using h0 q by (intro fl_nonneg) simp
  have "45 * scale width \<le> 64 * 2 ^ 31" using s by (intro mult_mono) auto
  then have "45 * scale width \<le> 2 ^ 37" by simp
  then have b1: "fmul 45 (scale width) \<le> 2 ^ 37" unfolding fmul_def by (rule fl_le_pow2) simp
  have b0: "0 \<le> fmul 45 (scale width)" unfolding fmul_def using s by (intro fl_nonneg) simp
  have "fmul (float_of_int height) (fl (46/100)) + fmul 45 (scale width) \<le> 2 ^ 38"
    using a1 b1 by simp
  then have u: "x \<le> 2 ^ 38" unfolding x_def fadd_def by (rule fl_le_pow2) simp
  have l: "0 \<le> x" unfolding x_def fadd_def using a0 b0 by (intro fl_nonneg) simp
  have "(of_int (py_int x) :: rat) \<le> of_int (2 ^ 38)"
    using of_int_py_int_le[OF l] u by simp
  then have "py_int x \<le> 2 ^ 38" by (simp only: of_int_le_iff)
  moreover have "0 \<le> py_int x" using l by (rule py_int_nonneg)
  ultimately have "\<bar>py_int x\<bar> < 2 ^ 53" by simp
  then have "float_of_int (py_int x) = of_int (py_int x)" by (rule float_of_int_exact)
  then show ?thesis unfolding x_def .
qed

lemma glow_cx_exact:
  assumes w: "0 \<le> width" "width < 2 ^ 31"
  shows "float_of_int (width div 2) = of_int (width div 2)"
proof -
  have "0 \<le> width div 2" "width div 2 \<le> width" using w by simp_all
  then have "\<bar>width div 2\<bar> < 2 ^ 53" using w by simp
  then show ?thesis by (rule float_of_int_exact)
qed

lemma radius_near:
  fixes g a s :: rat
  assumes "0 \<le> g" "0 \<le> a"
  shows "\<bar>fl (g + fl a) - (g + a)\<bar> \<le> (g + a) / 2 ^ 51"
proof -
  define e :: rat where "e = 1 / 2 ^ 53"
  have e: "0 < e" "e \<le> 1" by (simp_all add: e_def)
  have 1: "\<bar>fl a - a\<bar> \<le> a * e" using fl_err[of a] assms(2) by (simp add: e_def)
  have f0: "0 \<le> fl a" using assms(2) by (rule fl_nonneg)
  have 2: "\<bar>fl (g + fl a) - (g + fl a)\<bar> \<le> (g + fl a) * e"
    using fl_err[of "g + fl a"] assms(1) f0 by (simp add: e_def)
  have "a * e \<le> a * 1" using assms(2) e by (intro mult_left_mono) auto
  then have 3: "fl a \<le> 2 * a" using 1 by linarith
  have "(g + fl a) * e \<le> (g + 2 * a) * e" using 3 e by (intro mult_right_mono) auto
  then have "\<bar>fl (g + fl a) - (g + a)\<bar> \<le> (g + 2 * a) * e + a * e" using 1 2 by linarith
  also have "\<dots> = g * e + 3 * (a * e)" by (simp add: algebra_simps)
  also have "\<dots> \<le> 4 * (g * e) + 4 * (a * e)"
  proof -
    have "0 \<le> g * e" "0 \<le> a * e" using assms e by simp_all
    then show ?thesis by linarith
  qed
  also have "\<dots> = (g + a) / 2 ^ 51" by (simp add: e_def algebra_simps)
  finally show ?thesis .
qed

lemma glow_radius_near:
  assumes w: "0 \<le> width" "width < 2 ^ 31" and c: "0 \<le> c" "c \<le> 128"
    and r: "0 \<le> r" "r \<le> 20" and m: "0 \<le> m" "m \<le> 3"
  shows "\<bar>fadd (float_of_int (py_int (fmul c (scale width))))
               (fmul (float_of_int (r * m)) (scale width))
          - (of_int (py_int (fmul c (scale width))) + of_int m * of_int r * scale width)\<bar>
         \<le> (of_int (py_int (fmul c (scale width))) + of_int m * of_int r * scale width) / 2 ^ 51"
proof -
  define g :: rat where "g = of_int (py_int (fmul c (scale width)))"
  have s: "0 \<le> scale width" using w(1) by (rule scale_nonneg)
  have g0: "0 \<le> g" unfolding g_def using scaled_nonneg[OF c(1) w(1)] by simp
  have "0 \<le> r * m" "r * m \<le> 20 * 3" using r m by (simp, intro mult_mono) simp_all
  then have "\<bar>r * m\<bar> < 2 ^ 53" by simp
  then have fr: "float_of_int (r * m) = of_int (r * m)" by (rule float_of_int_exact)
  define a :: rat where "a = of_int m * of_int r * scale width"
  have a0: "0 \<le> a" unfolding a_def using r m s by simp
  have "\<bar>fl (g + fl a) - (g + a)\<bar> \<le> (g + a) / 2 ^ 51" using g0 a0 by (rule radius_near)
  moreover have e1: "float_of_int (py_int (fmul c (scale width))) = g"
    unfolding g_def by (rule scaled_exact[OF c w])
  moreover have e2: "fmul (float_of_int (r * m)) (scale width) = fl a"
    unfolding fr fmul_def a_def by (simp add: mult.commute)
  ultimately have "\<bar>fadd (float_of_int (py_int (fmul c (scale width))))
               (fmul (float_of_int (r * m)) (scale width)) - (g + a)\<bar> \<le> (g + a) / 2 ^ 51"
    by (simp add: fadd_def)
  then show ?thesis unfolding g_def a_def .
qed

lemma radius_dyadic:
  assumes g: "\<bar>g\<bar> \<le> 1000" and n: "\<bar>n\<bar> \<le> 1000" and s: "scale w = 1 / 2 ^ k" and k: "k \<le> 2"
  shows "fadd (float_of_int g) (fmul (float_of_int n) (scale w)) = of_int g + of_int n / 2 ^ k"
proof -
  have "\<bar>g\<bar> < 2 ^ 53" "\<bar>n\<bar> < 2 ^ 53" using g n by simp_all
  then have fg: "float_of_int g = of_int g" and fn: "float_of_int n = of_int n"
    by (simp_all add: float_of_int_exact)
  have "fmul (float_of_int n) (scale w) = fl (of_int n / 2 ^ k)"
    by (simp add: fmul_def fn s)
  also have "\<dots> = of_int n / 2 ^ k" using \<open>\<bar>n\<bar> < 2 ^ 53\<close> by (rule fl_dyadic)
  finally have a: "fmul (float_of_int n) (scale w) = of_int n / 2 ^ k" .
  have "(2::int) ^ k \<le> 2 ^ 2" using k by (intro power_increasing) simp_all
  then have p: "(2::int) ^ k \<le> 4" "0 < (2::int) ^ k" by simp_all
  have "\<bar>g * 2 ^ k\<bar> \<le> 1000 * 4"
    unfolding abs_mult using g p by (intro mult_mono) simp_all
  then have b: "\<bar>g * 2 ^ k + n\<bar> < 2 ^ 53" using n by simp
  have "(of_int g :: rat) + of_int n / 2 ^ k = of_int (g * 2 ^ k + n) / 2 ^ k"
    by (simp add: field_simps)
  then have "fl (of_int g + of_int n / 2 ^ k) = of_int g + of_int n / 2 ^ k"
    using fl_dyadic[OF b, of k] by simp
  then show ?thesis by (simp add: fadd_def a fg)
qed

lemma glow_rx_1000: "glow_rx 1000 = 90"
  using fl_of_int[of 90] by (simp add: glow_rx_def fmul_def scale_1000 py_int_def)

lemma glow_ry_1000: "glow_ry 1000 = 30"
  using fl_of_int[of 30] by (simp add: glow_ry_def fmul_def scale_1000 py_int_def)

lemma glow_rx_500: "glow_rx 500 = 45"
  using fl_of_int[of 45] by (simp add: glow_rx_def fmul_def scale_500 py_int_def)

lemma glow_ry_500: "glow_ry 500 = 15"
  using fl_of_int[of 15] by (simp add: glow_ry_def fmul_def scale_500 py_int_def)

lemma glow_rx_250: "glow_rx 250 = 22"
proof -
  have f: "fl (45 / 2) = 45 / 2" using fl_dyadic[of 45 1] by simp
  have "\<lfloor>(45 / 2)::rat\<rfloor> = 22" by (rule floor_unique) simp_all
  then show ?thesis by (simp add: glow_rx_def fmul_def scale_250 py_int_def f)
qed

lemma glow_ry_250: "glow_ry 250 = 7"
proof -
  have f: "fl (15 / 2) = 15 / 2" using fl_dyadic[of 15 1] by simp
  have "\<lfloor>(15 / 2)::rat\<rfloor> = 7" by (rule floor_unique) simp_all
  then show ?thesis by (simp add: glow_ry_def fmul_def scale_250 py_int_def f)
qed

lemma glow_radii_configured:
  assumes "1 \<le> r" "r \<le> 20"
  shows "glow_ex 1000 r = 90 + 3 * of_int r" "glow_ey 1000 r = 30 + of_int r"
    "glow_ex 500 r = 45 + 3 * of_int r / 2" "glow_ey 500 r = 15 + of_int r / 2"
    "glow_ex 250 r = 22 + 3 * of_int r / 4" "glow_ey 250 r = 7 + of_int r / 4"
proof -
  have r3: "\<bar>r * 3\<bar> \<le> 1000" "\<bar>r * 1\<bar> \<le> 1000" using assms by simp_all
  have s0: "scale 1000 = 1 / 2 ^ 0" by (simp add: scale_1000)
  have s1: "scale 500 = 1 / 2 ^ 1" by (simp add: scale_500)
  have s2: "scale 250 = 1 / 2 ^ 2" by (simp add: scale_250)
  show "glow_ex 1000 r = 90 + 3 * of_int r"
    unfolding glow_ex_def glow_rx_1000 using radius_dyadic[OF _ r3(1) s0, of 90] by simp
  show "glow_ey 1000 r = 30 + of_int r"
    unfolding glow_ey_def glow_ry_1000 using radius_dyadic[OF _ r3(2) s0, of 30] by simp
  show "glow_ex 500 r = 45 + 3 * of_int r / 2"
    unfolding glow_ex_def glow_rx_500 using radius_dyadic[OF _ r3(1) s1, of 45] by simp
  show "glow_ey 500 r = 15 + of_int r / 2"
    unfolding glow_ey_def glow_ry_500 using radius_dyadic[OF _ r3(2) s1, of 15] by simp
  show "glow_ex 250 r = 22 + 3 * of_int r / 4"
    unfolding glow_ex_def glow_rx_250 using radius_dyadic[OF _ r3(1) s2, of 22] by simp
  show "glow_ey 250 r = 7 + of_int r / 4"
    unfolding glow_ey_def glow_ry_250 using radius_dyadic[OF _ r3(2) s2, of 7] by simp
qed

lemma box_midpoint:
  "\<bar>(fsub c x + fadd c x) / 2 - c\<bar> \<le> (\<bar>c\<bar> + \<bar>x\<bar>) / 2 ^ 53"
proof -
  have 1: "\<bar>fl (c - x) - (c - x)\<bar> \<le> (\<bar>c\<bar> + \<bar>x\<bar>) / 2 ^ 53"
    using fl_err[of "c - x"] divide_right_mono[of "\<bar>c - x\<bar>" "\<bar>c\<bar> + \<bar>x\<bar>" "2 ^ 53"] by simp
  have 2: "\<bar>fl (c + x) - (c + x)\<bar> \<le> (\<bar>c\<bar> + \<bar>x\<bar>) / 2 ^ 53"
    using fl_err[of "c + x"] divide_right_mono[of "\<bar>c + x\<bar>" "\<bar>c\<bar> + \<bar>x\<bar>" "2 ^ 53"] by simp
  define B where "B = (\<bar>c\<bar> + \<bar>x\<bar>) / 2 ^ 53"
  define p where "p = fl (c - x) - (c - x)"
  define q where "q = fl (c + x) - (c + x)"
  have "\<bar>p\<bar> \<le> B" "\<bar>q\<bar> \<le> B" using 1 2 by (simp_all add: p_def q_def B_def)
  then have "\<bar>p + q\<bar> \<le> 2 * B" by linarith
  then have m: "\<bar>(p + q) / 2\<bar> \<le> B" by simp
  have "(fl (c - x) + fl (c + x)) / 2 - c = (p + q) / 2"
    unfolding p_def q_def by (simp add: field_simps)
  then have "\<bar>(fl (c - x) + fl (c + x)) / 2 - c\<bar> \<le> B" using m by (simp only:)
  then show ?thesis unfolding fsub_def fadd_def B_def .
qed

text \<open>
  Claim C5.  The glow is built on a separate, fully transparent RGBA layer: exactly 20
  ellipses, one for each \<open>r\<close> from 20 down to 1, each filled with green at alpha
  \<open>min (8 * (20 - r)) 50\<close>.  The ellipses are concentric: every bounding box is
  \<open>[cx - ex, cy - ey, cx + ex, cy + ey]\<close> around the same integer centre
  \<open>cx = width // 2\<close>, \<open>cy = int(height * 0.46 + 45 * scale)\<close>, whatever \<open>r\<close>, and the midpoint
  of each box is that centre up to one rounding.  The radii are
  \<open>ex = glow_rx + r * 3 * scale\<close> and \<open>ey = glow_ry + r * 1 * scale\<close> in double arithmetic, with
  \<open>glow_rx = int(90 * scale)\<close> and \<open>glow_ry = int(30 * scale)\<close>: within a relative \<open>2^-51\<close> of
  the exact \<open>glow_rx + 3 r scale\<close> and \<open>glow_ry + r scale\<close>, and equal to \<open>90 + 3 r\<close>, \<open>30 + r\<close>
  at width 1000, \<open>45 + 3 r / 2\<close>, \<open>15 + r / 2\<close> at width 500 and \<open>22 + 3 r / 4\<close>, \<open>7 + r / 4\<close> at
  width 250.  Both radii grow strictly with \<open>r\<close> while the alpha \<open>8 * (20 - r)\<close> falls
  strictly (the capped alpha never rises).  The layer is then alpha-composited onto the
  canvas.  Stated for the canvas sizes Pillow accepts, \<open>0 < width < 2^31\<close> and
  \<open>0 \<le> height < 2^31\<close>.
\<close>

theorem glow_layer:
  assumes "0 < width" "width < 2 ^ 31" "0 \<le> height" "height < 2 ^ 31"
  shows "glow width height =
           [New_image Glow_img ''RGBA'' (width, height) (RGBA 0 0 0 0)]
           @ map (glow_ellipse width height)
               [20, 19, 18, 17, 16, 15, 14, 13, 12, 11, 10, 9, 8, 7, 6, 5, 4, 3, 2, 1]
           @ [Alpha_composite Img_composited Img Glow_img]
       \<and> length (filter (\<lambda>op. \<exists>box fill. op = Draw_ellipse Glow_img box fill)
                  (glow width height)) = 20
       \<and> (\<forall>r. glow_ellipse width height r =
              Draw_ellipse Glow_img
                [fsub (of_int (glow_cx width)) (glow_ex width r),
                 fsub (of_int (glow_cy width height)) (glow_ey width r),
                 fadd (of_int (glow_cx width)) (glow_ex width r),
                 fadd (of_int (glow_cy width height)) (glow_ey width r)]
                (RGBA 46 204 113 (min (8 * (20 - r)) 50)))
       \<and> glow_cx width = width div 2
       \<and> glow_cy width height =
           py_int (fadd (fmul (float_of_int height) (fl (46/100))) (fmul 45 (scale width)))
       \<and> (\<forall>r. \<bar>(fsub (of_int (glow_cx width)) (glow_ex width r)
                  + fadd (of_int (glow_cx width)) (glow_ex width r)) / 2
                 - of_int (glow_cx width)\<bar>
                \<le> (\<bar>of_int (glow_cx width)\<bar> + \<bar>glow_ex width r\<bar>) / 2 ^ 53
              \<and> \<bar>(fsub (of_int (glow_cy width height)) (glow_ey width r)
                    + fadd (of_int (glow_cy width height)) (glow_ey width r)) / 2
                   - of_int (glow_cy width height)\<bar>
                  \<le> (\<bar>of_int (glow_cy width height)\<bar> + \<bar>glow_ey width r\<bar>) / 2 ^ 53)
       \<and> glow_rx width = py_int (fmul 90 (scale width))
       \<and> glow_ry width = py_int (fmul 30 (scale width))
       \<and> (\<forall>r. glow_ex width r =
                 fadd (float_of_int (glow_rx width)) (fmul (float_of_int (r * 3)) (scale width))
              \<and> glow_ey width r =
                 fadd (float_of_int (glow_ry width)) (fmul (float_of_int (r * 1)) (scale width)))
       \<and> (\<forall>r. 1 \<le> r \<and> r \<le> 20 \<longrightarrow>
              \<bar>glow_ex width r - (of_int (glow_rx width) + 3 * of_int r * scale width)\<bar>
                \<le> (of_int (glow_rx width) + 3 * of_int r * scale width) / 2 ^ 51
              \<and> \<bar>glow_ey width r - (of_int (glow_ry width) + of_int r * scale width)\<bar>
                \<le> (of_int (glow_ry width) + of_int r * scale width) / 2 ^ 51)
       \<and> (\<forall>r. 1 \<le> r \<and> r \<le> 20 \<longrightarrow>
              glow_ex 1000 r = 90 + 3 * of_int r \<and> glow_ey 1000 r = 30 + of_int r
              \<and> glow_ex 500 r = 45 + 3 * of_int r / 2 \<and> glow_ey 500 r = 15 + of_int r / 2
              \<and> glow_ex 250 r = 22 + 3 * of_int r / 4 \<and> glow_ey 250 r = 7 + of_int r / 4)
       \<and> (\<forall>r r'. 1 \<le> r \<and> r < r' \<and> r' \<le> 20 \<longrightarrow>
              glow_ex width r < glow_ex width r' \<and> glow_ey width r < glow_ey width r'
              \<and> 8 * (20 - r') < 8 * (20 - r)
              \<and> min (8 * (20 - r')) 50 \<le> min (8 * (20 - r)) (50::int))"
proof -
  have w0: "0 \<le> width" using assms(1) by simp
  have a: "glow width height =
           [New_image Glow_img ''RGBA'' (width, height) (RGBA 0 0 0 0)]
           @ map (glow_ellipse width height)
               [20, 19, 18, 17, 16, 15, 14, 13, 12, 11, 10, 9, 8, 7, 6, 5, 4, 3, 2, 1]
           @ [Alpha_composite Img_composited Img Glow_img]"
    by (simp add: glow_def glow_loop_eq)
  have e: "\<And>r. \<exists>box fill. glow_ellipse width height r = Draw_ellipse Glow_img box fill"
    by (simp add: glow_ellipse_def Let_def)
  have b: "length (filter (\<lambda>op. \<exists>box fill. op = Draw_ellipse Glow_img box fill)
                  (glow width height)) = 20"
    unfolding a using e by simp
  have cx: "float_of_int (width div 2) = of_int (glow_cx width)"
    unfolding glow_cx_def by (rule glow_cx_exact[OF w0 assms(2)])
  have cy: "float_of_int (py_int (fadd (fmul (float_of_int height) (fl (46/100)))
                                    (fmul 45 (scale width))))
              = of_int (glow_cy width height)"
    unfolding glow_cy_def by (rule glow_cy_exact[OF w0 assms(2) assms(3) assms(4)])
  have c: "\<forall>r. glow_ellipse width height r =
              Draw_ellipse Glow_img
                [fsub (of_int (glow_cx width)) (glow_ex width r),
                 fsub (of_int (glow_cy width height)) (glow_ey width r),
                 fadd (of_int (glow_cx width)) (glow_ex width r),
                 fadd (of_int (glow_cy width height)) (glow_ey width r)]
                (RGBA 46 204 113 (min (8 * (20 - r)) 50))"
    unfolding glow_ellipse_def Let_def cx cy by (simp add: glow_alpha_def)
  have m: "\<forall>r. \<bar>(fsub (of_int (glow_cx width)) (glow_ex width r)
                  + fadd (of_int (glow_cx width)) (glow_ex width r)) / 2
                 - of_int (glow_cx width)\<bar>
                \<le> (\<bar>of_int (glow_cx width)\<bar> + \<bar>glow_ex width r\<bar>) / 2 ^ 53
              \<and> \<bar>(fsub (of_int (glow_cy width height)) (glow_ey width r)
                    + fadd (of_int (glow_cy width height)) (glow_ey width r)) / 2
                   - of_int (glow_cy width height)\<bar>
                  \<le> (\<bar>of_int (glow_cy width height)\<bar> + \<bar>glow_ey width r\<bar>) / 2 ^ 53"
    by (intro allI conjI) (rule box_midpoint)+
  have p: "\<forall>r. glow_ex width r =
                 fadd (float_of_int (glow_rx width)) (fmul (float_of_int (r * 3)) (scale width))
              \<and> glow_ey width r =
                 fadd (float_of_int (glow_ry width)) (fmul (float_of_int (r * 1)) (scale width))"
    by (simp add: glow_ex_def glow_ey_def)
  have n: "\<forall>r. 1 \<le> r \<and> r \<le> 20 \<longrightarrow>
              \<bar>glow_ex width r - (of_int (glow_rx width) + 3 * of_int r * scale width)\<bar>
                \<le> (of_int (glow_rx width) + 3 * of_int r * scale width) / 2 ^ 51
              \<and> \<bar>glow_ey width r - (of_int (glow_ry width) + of_int r * scale width)\<bar>
                \<le> (of_int (glow_ry width) + of_int r * scale width) / 2 ^ 51"
  proof (intro allI impI)
    fix r :: int assume "1 \<le> r \<and> r \<le> 20"
    then have r: "0 \<le> r" "r \<le> 20" by simp_all
    have x: "\<bar>glow_ex width r - (of_int (glow_rx width) + 3 * of_int r * scale width)\<bar>
                \<le> (of_int (glow_rx width) + 3 * of_int r * scale width) / 2 ^ 51"
      using glow_radius_near[OF w0 assms(2) _ _ r, of 90 3]
      by (simp add: glow_ex_def glow_rx_def)
    have y: "\<bar>glow_ey width r - (of_int (glow_ry width) + of_int r * scale width)\<bar>
                \<le> (of_int (glow_ry width) + of_int r * scale width) / 2 ^ 51"
      using glow_radius_near[OF w0 assms(2) _ _ r, of 30 1]
      by (simp add: glow_ey_def glow_ry_def)
    show "\<bar>glow_ex width r - (of_int (glow_rx width) + 3 * of_int r * scale width)\<bar>
                \<le> (of_int (glow_rx width) + 3 * of_int r * scale width) / 2 ^ 51
              \<and> \<bar>glow_ey width r - (of_int (glow_ry width) + of_int r * scale width)\<bar>
                \<le> (of_int (glow_ry width) + of_int r * scale width) / 2 ^ 51"
      using x y by (rule conjI)
  qed
  have v: "\<forall>r. 1 \<le> r \<and> r \<le> 20 \<longrightarrow>
              glow_ex 1000 r = 90 + 3 * of_int r \<and> glow_ey 1000 r = 30 + of_int r
              \<and> glow_ex 500 r = 45 + 3 * of_int r / 2 \<and> glow_ey 500 r = 15 + of_int r / 2
              \<and> glow_ex 250 r = 22 + 3 * of_int r / 4 \<and> glow_ey 250 r = 7 + of_int r / 4"
  proof (intro allI impI)
    fix r :: int assume "1 \<le> r \<and> r \<le> 20"
    then have r: "1 \<le> r" "r \<le> 20" by simp_all
    show "glow_ex 1000 r = 90 + 3 * of_int r \<and> glow_ey 1000 r = 30 + of_int r
              \<and> glow_ex 500 r = 45 + 3 * of_int r / 2 \<and> glow_ey 500 r = 15 + of_int r / 2
              \<and> glow_ex 250 r = 22 + 3 * of_int r / 4 \<and> glow_ey 250 r = 7 + of_int r / 4"
      by (intro conjI) (rule glow_radii_configured[OF r])+
  qed
  have d: "\<forall>r r'. 1 \<le> r \<and> r < r' \<and> r' \<le> 20 \<longrightarrow>
              glow_ex width r < glow_ex width r' \<and> glow_ey width r < glow_ey width r'
              \<and> 8 * (20 - r') < 8 * (20 - r)
              \<and> min (8 * (20 - r')) 50 \<le> min (8 * (20 - r)) (50::int)"
    using glow_ex_strict[OF assms(1)] glow_ey_strict[OF assms(1)] by auto
  show ?thesis
    by (intro conjI) (rule a b c glow_cx_def glow_cy_def m glow_rx_def glow_ry_def p n v d)+
qed

theorem glow_layer_witness:
  "glow_ex 250 1 < glow_ex 250 2 \<and> glow_ey 250 19 < glow_ey 250 20
   \<and> glow_ex 250 20 = 37 \<and> glow_ey 250 20 = 12 \<and> glow_cx 250 = 125"
proof -
  have p: "(0::int) < 250" "(250::int) < 2 ^ 31" "(0::int) \<le> 175" "(175::int) < 2 ^ 31"
    by simp_all
  note t = glow_layer[OF p]
  note r3 = t[THEN conjunct2, THEN conjunct2, THEN conjunct2]
  note cx = r3[THEN conjunct1]
  note r9 = r3[THEN conjunct2, THEN conjunct2, THEN conjunct2, THEN conjunct2, THEN conjunct2,
              THEN conjunct2]
  note v = r9[THEN conjunct2, THEN conjunct1]
  note d = r9[THEN conjunct2, THEN conjunct2]
  have a: "glow_ex 250 1 < glow_ex 250 2"
    using d[rule_format, of 1 2] by simp
  have b: "glow_ey 250 19 < glow_ey 250 20"
    using d[rule_format, of 19 20] by simp
  have c: "glow_ex 250 20 = 37" using v[rule_format, of 20] by simp
  have e: "glow_ey 250 20 = 12" using v[rule_format, of 20] by simp
  have f: "glow_cx 250 = 125" using cx by simp
  show ?thesis
    by (intro conjI) (rule a b c e f)+
qed

text \<open>
  Claim C6, as stated, fails in floating point: for the centre (0.1, 0.1) and size 100
  the offsets are \<open>0.1 - 52.0\<close> and \<open>0.1 - 50.0\<close>, both rounded, and adding 52.0 and 50.0
  back gives 0.10000000000000142 in each coordinate, not 0.1.
\<close>

theorem icon_centre_counterexample:
  "scaled_point (icon_ox (fl (1/10)) (icon_scale 100)) (icon_oy (fl (1/10)) (icon_scale 100))
     (icon_scale 100) (52, 50) \<noteq> (fl (1/10), fl (1/10))"
  by code_simp

text \<open>
  Claim C6, amended.  For a centre and a size that are doubles of moderate magnitude
  (zero, or between \<open>2^-300\<close> and \<open>2^300\<close>, where nothing overflows or underflows): with
  \<open>s = size / 100\<close>, \<open>ox = cx - 52 * s\<close> and \<open>oy = cy - 50 * s\<close>, \<^verbatim>\<open>draw_icon\<close> maps every
  design point \<open>p\<close> of its three hardcoded curves to \<open>(ox + p[0] * s, oy + p[1] * s)\<close>: the
  shapes are only scaled and translated.  The design point (52, 50) is mapped onto the
  given centre up to floating-point rounding, each coordinate within \<open>2^-51\<close> times the sum
  of the magnitudes of the centre coordinate and the offset, and exactly onto the centre
  for the three configured outputs (centres (125, 70), (250, 140) and (500, 280)).
\<close>

theorem icon_centre_transform:
  assumes "moderate cx" "moderate cy" "moderate sz"
  shows "\<bar>fst (scaled_point (icon_ox cx (icon_scale sz)) (icon_oy cy (icon_scale sz))
                      (icon_scale sz) (52, 50)) - cx\<bar>
     \<le> (\<bar>cx\<bar> + \<bar>fmul 52 (icon_scale sz)\<bar>) / 2 ^ 51
   \<and> \<bar>snd (scaled_point (icon_ox cx (icon_scale sz)) (icon_oy cy (icon_scale sz))
                        (icon_scale sz) (52, 50)) - cy\<bar>
     \<le> (\<bar>cy\<bar> + \<bar>fmul 50 (icon_scale sz)\<bar>) / 2 ^ 51
   \<and> icon_scale sz = fdiv sz 100
   \<and> icon_ox cx (icon_scale sz) = fsub cx (fmul 52 (icon_scale sz))
   \<and> icon_oy cy (icon_scale sz) = fsub cy (fmul 50 (icon_scale sz))
   \<and> (\<forall>ox oy s px py. scaled_point ox oy s (px, py) =
          (fadd ox (fmul (float_of_int px) s), fadd oy (fmul (float_of_int py) s)))
   \<and> curves =
       [[(18, 30), (30, 18), (44, 42), (56, 30), (68, 18), (80, 34), (90, 26)],
        [(10, 50), (24, 36), (40, 64), (54, 50), (68, 36), (82, 56), (94, 46)],
        [(18, 70), (30, 58), (44, 82), (56, 70), (68, 58), (80, 74), (90, 66)]]
   \<and> draw_icon draw cx cy sz color [w0, w1, w2] =
       collect
         [draw_breeze_curve draw
            (map (scaled_point (icon_ox cx (icon_scale sz)) (icon_oy cy (icon_scale sz))
                    (icon_scale sz)) (curves ! 0)) w0 color,
          draw_breeze_curve draw
            (map (scaled_point (icon_ox cx (icon_scale sz)) (icon_oy cy (icon_scale sz))
                    (icon_scale sz)) (curves ! 1)) w1 color,
          draw_breeze_curve draw
            (map (scaled_point (icon_ox cx (icon_scale sz)) (icon_oy cy (icon_scale sz))
                    (icon_scale sz)) (curves ! 2)) w2 color]
   \<and> scaled_point (icon_ox (float_of_int (icon_cx 250)) (icon_scale (icon_size 250)))
                  (icon_oy (float_of_int (icon_cy 175)) (icon_scale (icon_size 250)))
                  (icon_scale (icon_size 250)) (52, 50) = (125, 70)
   \<and> scaled_point (icon_ox (float_of_int (icon_cx 500)) (icon_scale (icon_size 500)))
                  (icon_oy (float_of_int (icon_cy 350)) (icon_scale (icon_size 500)))
                  (icon_scale (icon_size 500)) (52, 50) = (250, 140)
   \<and> scaled_point (icon_ox (float_of_int (icon_cx 1000)) (icon_scale (icon_size 1000)))
                  (icon_oy (float_of_int (icon_cy 700)) (icon_scale (icon_size 1000)))
                  (icon_scale (icon_size 1000)) (52, 50) = (500, 280)"
proof -
  have a: "\<bar>fst (scaled_point (icon_ox cx (icon_scale sz)) (icon_oy cy (icon_scale sz))
                      (icon_scale sz) (52, 50)) - cx\<bar>
     \<le> (\<bar>cx\<bar> + \<bar>fmul 52 (icon_scale sz)\<bar>) / 2 ^ 51"
    using translate_back[of cx "fmul 52 (icon_scale sz)"]
    by (simp add: scaled_point_def icon_ox_def fadd_def fsub_def float_52)
  have b: "\<bar>snd (scaled_point (icon_ox cx (icon_scale sz)) (icon_oy cy (icon_scale sz))
                        (icon_scale sz) (52, 50)) - cy\<bar>
     \<le> (\<bar>cy\<bar> + \<bar>fmul 50 (icon_scale sz)\<bar>) / 2 ^ 51"
    using translate_back[of cy "fmul 50 (icon_scale sz)"]
    by (simp add: scaled_point_def icon_oy_def fadd_def fsub_def float_50)
  have s: "\<forall>ox oy s px py. scaled_point ox oy s (px, py) =
          (fadd ox (fmul (float_of_int px) s), fadd oy (fmul (float_of_int py) s))"
    by (simp add: scaled_point_def)
  have c: "draw_icon draw cx cy sz color [w0, w1, w2] =
       collect
         [draw_breeze_curve draw
            (map (scaled_point (icon_ox cx (icon_scale sz)) (icon_oy cy (icon_scale sz))
                    (icon_scale sz)) (curves ! 0)) w0 color,
          draw_breeze_curve draw
            (map (scaled_point (icon_ox cx (icon_scale sz)) (icon_oy cy (icon_scale sz))
                    (icon_scale sz)) (curves ! 1)) w1 color,
          draw_breeze_curve draw
            (map (scaled_point (icon_ox cx (icon_scale sz)) (icon_oy cy (icon_scale sz))
                    (icon_scale sz)) (curves ! 2)) w2 color]"
    by (simp add: draw_icon_def Let_def upt_rec curves_def)
  show ?thesis
    by (intro conjI)
       (rule a b s c icon_scale_def icon_ox_def icon_oy_def curves_def
          centre_250 centre_500 centre_1000)+
qed

theorem icon_centre_transform_witness:
  "\<bar>fst (scaled_point (icon_ox 125 (icon_scale 40)) (icon_oy 70 (icon_scale 40))
                      (icon_scale 40) (52, 50)) - 125\<bar>
     \<le> (\<bar>125\<bar> + \<bar>fmul 52 (icon_scale 40)\<bar>) / 2 ^ 51
   \<and> \<bar>snd (scaled_point (icon_ox 125 (icon_scale 40)) (icon_oy 70 (icon_scale 40))
                        (icon_scale 40) (52, 50)) - 70\<bar>
     \<le> (\<bar>70\<bar> + \<bar>fmul 50 (icon_scale 40)\<bar>) / 2 ^ 51
   \<and> icon_scale 40 = fdiv 40 100"
proof -
  have m: "moderate 125" "moderate 70" "moderate 40"
    using moderate_int[of 125] moderate_int[of 70] moderate_int[of 40] by simp_all
  note t = icon_centre_transform[OF m]
  show ?thesis
    by (intro conjI)
       (rule t[THEN conjunct1] t[THEN conjunct2, THEN conjunct1]
          t[THEN conjunct2, THEN conjunct2, THEN conjunct1])+
qed

lemma collect_all_Inr:
  "(\<forall>m \<in> set ms. \<exists>x. m = Inr x) \<Longrightarrow> \<exists>ys. collect ms = Inr ys"
proof (induction ms)
  case Nil
  show ?case by simp
next
  case (Cons m ms)
  then obtain x ys where "m = Inr x" "collect ms = Inr ys" by auto
  then show ?case by (simp add: bind_err_simps)
qed

lemma draw_breeze_curve_returns:
  "7 \<le> length points \<Longrightarrow> \<exists>ops. draw_breeze_curve draw points width color = Inr ops"
  by (simp add: draw_breeze_curve_def Let_def)

lemma main_icon_returns: "\<exists>ops. main_icon width height = Inr ops"
  unfolding main_icon_calls
  by (rule collect_all_Inr) (auto simp: curves_def intro!: draw_breeze_curve_returns)

lemma scale_eq_0_iff: "scale width = 0 \<longleftrightarrow> width = 0"
  by (simp add: scale_def fdiv_def float_of_int_def fl_eq_0_iff)

lemma float_of_int_nonneg: "0 \<le> n \<Longrightarrow> 0 \<le> float_of_int n"
  unfolding float_of_int_def by (intro fl_nonneg) simp

lemma wavelength_nonzero:
  assumes "0 \<le> i" "s \<noteq> 0"
  shows "fadd (fmul 350 s) (fmul (float_of_int (i * 50)) s) \<noteq> 0"
proof -
  define k where "k = float_of_int (i * 50)"
  have k: "0 \<le> k" unfolding k_def using assms(1) by (intro float_of_int_nonneg) simp
  show ?thesis
  proof (cases "0 < s")
    case True
    have "0 < fl (350 * s)" using True by (intro fl_pos) simp
    moreover have "0 \<le> fl (k * s)" using True k by (intro fl_nonneg) simp
    ultimately have "0 < fl (fl (350 * s) + fl (k * s))" by (intro fl_pos) simp
    then show ?thesis unfolding fadd_def fmul_def k_def by simp
  next
    case False
    then have s: "s < 0" using assms(2) by simp
    have "fl (350 * s) < 0" using s by (intro fl_neg) simp
    moreover have "fl (k * s) \<le> 0" using s k by (intro fl_nonpos) (simp add: mult_nonneg_nonpos)
    ultimately have "fl (fl (350 * s) + fl (k * s)) < 0" by (intro fl_neg) simp
    then show ?thesis unfolding fadd_def fmul_def k_def by simp
  qed
qed

lemma wave_call_returns:
  assumes "0 \<le> i"
  shows "\<exists>ops. draw_decorative_wave f draw y amp
                 (fadd (fmul 350 (scale width)) (fmul (float_of_int (i * 50)) (scale width)))
                 (fmul 30 (scale width)) (fsub (float_of_int width) (fmul 30 (scale width)))
                 col lw = Inr ops"
proof (cases "width = 0")
  case True
  then have "scale width = 0" by (simp add: scale_eq_0_iff)
  then have "range_list (py_int (fmul 30 (scale width)))
               (py_int (fsub (float_of_int width) (fmul 30 (scale width)))) 2 = []"
    using True by (simp add: fmul_def fsub_def float_of_int_def fl_zero py_int_def range_list_def)
  then show ?thesis by (simp add: draw_decorative_wave_def Let_def)
next
  case False
  then have "scale width \<noteq> 0" by (simp add: scale_eq_0_iff)
  then have "fadd (fmul 350 (scale width)) (fmul (float_of_int (i * 50)) (scale width)) \<noteq> 0"
    using assms by (intro wavelength_nonzero)
  then show ?thesis by (simp add: draw_decorative_wave_def Let_def)
qed

lemma decorative_waves_returns: "\<exists>ops. decorative_waves f width height = Inr ops"
  unfolding decorative_waves_def Let_def
proof (rule collect_all_Inr, rule ballI)
  fix m
  assume "m \<in> set (map (\<lambda>(i, offset).
                   draw_decorative_wave f Img
                        (fadd (fmul (float_of_int height) (fl (52/100))) (fmul (float_of_int offset) (scale width)))
                        (fadd (fmul 12 (scale width)) (fmul (float_of_int (i * 2)) (scale width)))
                        (fadd (fmul 350 (scale width)) (fmul (float_of_int (i * 50)) (scale width)))
                        (fmul 30 (scale width))
                        (fsub (float_of_int width) (fmul 30 (scale width)))
                        LINE_DIM (wave_width width))
                (zip (map int [0..<5]) [- 40, - 15, 12, 38, 62]))"
  then obtain i offset where io: "(i, offset) \<in> set (zip (map int [0..<5]) [- 40, - 15, 12, 38, 62])"
    and m: "m = draw_decorative_wave f Img
                        (fadd (fmul (float_of_int height) (fl (52/100))) (fmul (float_of_int offset) (scale width)))
                        (fadd (fmul 12 (scale width)) (fmul (float_of_int (i * 2)) (scale width)))
                        (fadd (fmul 350 (scale width)) (fmul (float_of_int (i * 50)) (scale width)))
                        (fmul 30 (scale width))
                        (fsub (float_of_int width) (fmul 30 (scale width)))
                        LINE_DIM (wave_width width)"
    by auto
  have "i \<in> set (map int [0..<5])" using io by (rule set_zip_leftD)
  then have "0 \<le> i" by auto
  then show "\<exists>x. m = Inr x" unfolding m by (rule wave_call_returns)
qed

lemma truetype_simps:
  "font_failure env path sz = Some e \<Longrightarrow> truetype env path sz = Inl e"
  "font_failure env path sz = None \<Longrightarrow> truetype env path sz = Inr (Truetype path sz)"
  by (simp_all add: truetype_def)

lemma load_fonts_fallback:
  assumes "font_failure env font_path (font_size width) = Some OSError
         \<or> font_failure env font_path (font_size width) = None
           \<and> font_failure env font_path (small_font_size width) = Some OSError"
  shows "load_fonts env width = Inr (Default_font, Default_font)"
  using assms by (auto simp: load_fonts_def truetype_simps bind_err_simps)

lemma load_fonts_never_OSError: "load_fonts env width = Inl e \<Longrightarrow> e \<noteq> OSError"
  by (auto simp: load_fonts_def split: sum.splits if_splits)

lemma generate_image_cases:
  obtains (fonts_raise) e where "load_fonts env width = Inl e"
      "generate_image env width height filename = Inl e"
  | (save_raises) font small_font e where "load_fonts env width = Inr (font, small_font)"
      "save_failure env filename = Some e"
      "generate_image env width height filename = Inl e"
  | (completes) font small_font before where "load_fonts env width = Inr (font, small_font)"
      "save_failure env filename = None"
      "generate_image env width height filename =
         Inr (before
              @ sensor_readings env width height font
              @ progress_bar width height
              @ [New_image Img_rgb ''RGB'' (width, height) BG_DARK,
                 Paste_with_alpha_mask Img_rgb Img_composited,
                 Save_png Img_rgb filename,
                 Print_saved filename width height])"
proof -
  obtain grid where g: "grid_lines width height = Inr grid"
    using grid_lines_returns by blast
  obtain waves where w: "decorative_waves (math_sin env) width height = Inr waves"
    using decorative_waves_returns by blast
  obtain icon where i: "main_icon width height = Inr icon"
    using main_icon_returns by blast
  show ?thesis
  proof (cases "load_fonts env width")
    case (Inl e)
    then have "generate_image env width height filename = Inl e"
      by (simp add: generate_image_def g w i bind_err_simps)
    then show ?thesis using Inl fonts_raise by blast
  next
    case (Inr fonts)
    obtain font small_font where f: "fonts = (font, small_font)" by (cases fonts)
    show ?thesis
    proof (cases "save_failure env filename")
      case (Some e)
      then have "generate_image env width height filename = Inl e"
        by (simp add: generate_image_def g w i Inr f bind_err_simps save_image_def)
      then show ?thesis using Inr f Some save_raises by blast
    next
      case None
      then have "generate_image env width height filename =
         Inr (([New_image Img ''RGBA'' (width, height) BG_DARK]
               @ background_gradient width height @ grid @ corner_dots width @ waves
               @ glow width height @ icon)
              @ sensor_readings env width height font
              @ progress_bar width height
              @ [New_image Img_rgb ''RGB'' (width, height) BG_DARK,
                 Paste_with_alpha_mask Img_rgb Img_composited,
                 Save_png Img_rgb filename,
                 Print_saved filename width height])"
        by (simp add: generate_image_def g w i Inr f bind_err_simps save_image_def)
      then show ?thesis using Inr f None completes by blast
    qed
  qed
qed

text \<open>
  Claim C7.  If loading the TrueType font raises \<^verbatim>\<open>OSError\<close> (\<^verbatim>\<open>IOError\<close> is the same
  class), at the first or at the second \<^verbatim>\<open>truetype\<close> call, the default font replaces
  both fonts and, when saving succeeds, the run completes all remaining steps: the text
  in the default font, the progress bar, flattening, saving and the printed line.  An
  \<^verbatim>\<open>OSError\<close> never leaves the font stage.  The run raises \<open>e\<close> exactly when font loading
  raised \<open>e\<close> (an exception other than \<^verbatim>\<open>OSError\<close>) or the fonts were obtained and saving
  raised \<open>e\<close>: no other failure is caught, and a failure of the save, an \<^verbatim>\<open>OSError\<close>
  included, propagates.
\<close>

theorem font_fallback_and_save_failure:
  "(font_failure env font_path (font_size width) = Some OSError
      \<or> font_failure env font_path (font_size width) = None
        \<and> font_failure env font_path (small_font_size width) = Some OSError
    \<longrightarrow> load_fonts env width = Inr (Default_font, Default_font)
        \<and> (save_failure env filename = None \<longrightarrow>
             (\<exists>before. generate_image env width height filename =
                Inr (before
                     @ sensor_readings env width height Default_font
                     @ progress_bar width height
                     @ [New_image Img_rgb ''RGB'' (width, height) BG_DARK,
                        Paste_with_alpha_mask Img_rgb Img_composited,
                        Save_png Img_rgb filename,
                        Print_saved filename width height]))))
   \<and> (\<forall>e. load_fonts env width = Inl e \<longrightarrow> e \<noteq> OSError)
   \<and> (\<forall>e. generate_image env width height filename = Inl e \<longleftrightarrow>
          load_fonts env width = Inl e
          \<or> (\<exists>fonts. load_fonts env width = Inr fonts) \<and> save_failure env filename = Some e)
   \<and> (save_failure env filename = Some OSError \<and> (\<exists>fonts. load_fonts env width = Inr fonts)
        \<longrightarrow> generate_image env width height filename = Inl OSError)"
proof -
  have a: "font_failure env font_path (font_size width) = Some OSError
      \<or> font_failure env font_path (font_size width) = None
        \<and> font_failure env font_path (small_font_size width) = Some OSError
    \<longrightarrow> load_fonts env width = Inr (Default_font, Default_font)
        \<and> (save_failure env filename = None \<longrightarrow>
             (\<exists>before. generate_image env width height filename =
                Inr (before
                     @ sensor_readings env width height Default_font
                     @ progress_bar width height
                     @ [New_image Img_rgb ''RGB'' (width, height) BG_DARK,
                        Paste_with_alpha_mask Img_rgb Img_composited,
                        Save_png Img_rgb filename,
                        Print_saved filename width height])))"
  proof (intro impI conjI)
    assume h: "font_failure env font_path (font_size width) = Some OSError
      \<or> font_failure env font_path (font_size width) = None
        \<and> font_failure env font_path (small_font_size width) = Some OSError"
    show l: "load_fonts env width = Inr (Default_font, Default_font)"
      using h by (rule load_fonts_fallback)
    assume s: "save_failure env filename = None"
    show "\<exists>before. generate_image env width height filename =
                Inr (before
                     @ sensor_readings env width height Default_font
                     @ progress_bar width height
                     @ [New_image Img_rgb ''RGB'' (width, height) BG_DARK,
                        Paste_with_alpha_mask Img_rgb Img_composited,
                        Save_png Img_rgb filename,
                        Print_saved filename width height])"
      by (rule generate_image_cases[of env width height filename]) (use l s in auto)
  qed
  have b: "\<forall>e. load_fonts env width = Inl e \<longrightarrow> e \<noteq> OSError"
    using load_fonts_never_OSError by blast
  have c: "\<forall>e. generate_image env width height filename = Inl e \<longleftrightarrow>
          load_fonts env width = Inl e
          \<or> (\<exists>fonts. load_fonts env width = Inr fonts) \<and> save_failure env filename = Some e"
    by (rule generate_image_cases[of env width height filename]) auto
  have d: "save_failure env filename = Some OSError \<and> (\<exists>fonts. load_fonts env width = Inr fonts)
        \<longrightarrow> generate_image env width height filename = Inl OSError"
    using c by blast
  show ?thesis by (intro conjI) (rule a b c d)+
qed

theorem font_fallback_and_save_failure_witness:
  "font_failure no_font_env font_path (font_size 250) = Some OSError
   \<and> save_failure no_font_env ''small.png'' = None
   \<and> load_fonts no_font_env 250 = Inr (Default_font, Default_font)
   \<and> (\<exists>before. generate_image no_font_env 250 175 ''small.png'' =
          Inr (before
               @ sensor_readings no_font_env 250 175 Default_font
               @ progress_bar 250 175
               @ [New_image Img_rgb ''RGB'' (250, 175) BG_DARK,
                  Paste_with_alpha_mask Img_rgb Img_composited,
                  Save_png Img_rgb ''small.png'',
                  Print_saved ''small.png'' 250 175]))"
proof -
  have h: "font_failure no_font_env font_path (font_size 250) = Some OSError"
    by (simp add: no_font_env_def)
  have s: "save_failure no_font_env ''small.png'' = None"
    by (simp add: no_font_env_def)
  note t = font_fallback_and_save_failure[of no_font_env 250 "''small.png''" 175]
  note c1 = t[THEN conjunct1, THEN mp, OF disjI1, OF h]
  note l = c1[THEN conjunct1]
  note g = c1[THEN conjunct2, THEN mp, OF s]
  show ?thesis by (intro conjI) (rule h s l g)+
qed

end
